theory Spec2Isabelle
  imports Main
begin

section \<open>Data model of the pipeline runner (shell_funcs.c)\<close>

text \<open>
  A pipe has two ends. An endpoint is named by the number of its channel (the loop index
  of the \<^verbatim>\<open>pipe\<close> call that created it) and by its end. The descriptor array
  \<^verbatim>\<open>pipe_fds\<close> is a list of slots; a slot holds \<open>Some e\<close> once \<^verbatim>\<open>pipe\<close> has stored the
  descriptor of endpoint \<open>e\<close> there and \<open>None\<close> while it is uninitialised.
  Counters and array indices are far below the range of a C \<^verbatim>\<open>int\<close> (they are bounded by
  twice the number of tokens), so they are natural numbers and integers here; an index
  is an \<open>int\<close> where the source uses \<open>-1\<close> for "no index".
\<close>

datatype pend = RdEnd | WrEnd

type_synonym endpoint = "nat \<times> pend"

datatype stream = STDIN_FILENO | STDOUT_FILENO

text \<open>
  The calls a process makes, in the order it makes them. \<open>Pipe i\<close> and \<open>Fork i\<close> are the
  \<^verbatim>\<open>pipe\<close> and \<^verbatim>\<open>fork\<close> calls of loop iteration \<open>i\<close>, \<open>Wait i\<close> the \<open>i\<close>-th \<^verbatim>\<open>wait\<close>.
  \<open>Close k d\<close> is \<^verbatim>\<open>close(fds[k])\<close> where the value read from slot \<open>k\<close> is \<open>d\<close>;
  \<open>Dup2 k d st\<close> is \<^verbatim>\<open>dup2(fds[k], st)\<close> likewise.
\<close>

datatype call =
    Pipe nat
  | Fork nat
  | Close int "endpoint option"
  | Dup2 int "endpoint option" stream
  | Wait nat
  | RunCommand "string list"

datatype pid = Parent | Child nat

text \<open>
  \<^verbatim>\<open>run_command\<close> is declared in shell_funcs.h and is not part of this file: it either
  replaces the process image (the process then ends with the program's own status) or
  returns a value to its caller.
\<close>

datatype run_result = Replaced int | Returned int

text \<open>
  The operating system as the code sees it: whether \<^verbatim>\<open>malloc\<close> succeeds, whether a
  given call of a given process succeeds, and what \<^verbatim>\<open>run_command\<close> does in child \<open>i\<close>.
\<close>

record os =
  malloc_ok :: bool
  sys_ok :: "pid \<Rightarrow> call \<Rightarrow> bool"
  run_command :: "nat \<Rightarrow> string list \<Rightarrow> run_result"

text \<open>
  Reading \<^verbatim>\<open>fds[k]\<close>. An index outside the array, or a slot never written, gives an
  indeterminate value in C; here it is \<open>None\<close>: not the descriptor of any endpoint.
\<close>

definition slot :: "endpoint option list \<Rightarrow> int \<Rightarrow> endpoint option" where
  "slot fds k = (if 0 \<le> k \<and> k < int (length fds) then fds ! nat k else None)"

section \<open>close_all\<close>

text \<open>
  \<^verbatim>\<open>for (int i = 0; i < n; i++) if (close(fds[i]) == -1) { perror; ret_val = 1; }\<close>
  The loop carries \<open>i\<close>, \<open>ret_val\<close> and the calls made so far.
\<close>

function close_all_loop ::
  "(call \<Rightarrow> bool) \<Rightarrow> endpoint option list \<Rightarrow> int \<Rightarrow> nat \<Rightarrow> int \<Rightarrow> call list \<Rightarrow> int \<times> call list"
where
  "close_all_loop ok fds n i ret_val tr =
     (if int i < n then
        (let c = Close (int i) (slot fds (int i));
             ret_val' = (if \<not> ok c then 1 else ret_val)
         in close_all_loop ok fds n (i + 1) ret_val' (tr @ [c]))
      else (ret_val, tr))"
  by pat_completeness auto
termination
  by (relation "measure (\<lambda>(ok, fds, n, i, ret_val, tr). nat (n - int i))") auto

declare close_all_loop.simps [simp del]

definition close_all :: "(call \<Rightarrow> bool) \<Rightarrow> endpoint option list \<Rightarrow> int \<Rightarrow> int \<times> call list" where
  "close_all ok fds n = close_all_loop ok fds n 0 0 []"

section \<open>The string vector operations used by the segmentation\<close>

text \<open>
  Modelled from the spec: \<^verbatim>\<open>strvec_num_occurrences\<close> of string_vector.c, which is not among
  the sources. The spec calls its result the count of delimiter occurrences.
\<close>

definition strvec_num_occurrences :: "string list \<Rightarrow> string \<Rightarrow> nat" where
  "strvec_num_occurrences vec s = count_list vec s"

text \<open>
  Modelled from the spec: \<^verbatim>\<open>strvec_find\<close> of string_vector.c, which is not among the
  sources. The spec scans left to right for the delimiter; the code compares the result
  with \<open>-1\<close>, so it is the index of the first occurrence, or \<open>-1\<close> when there is none.
\<close>

fun strvec_find :: "string list \<Rightarrow> string \<Rightarrow> int" where
  "strvec_find [] s = -1"
| "strvec_find (x # xs) s =
     (if x = s then 0
      else (let r = strvec_find xs s in if r = -1 then -1 else r + 1))"

text \<open>
  Modelled from the spec: \<^verbatim>\<open>strvec_slice\<close> of string_vector.c, which is not among the
  sources. It copies the tokens at the positions \<open>start \<le> j < end\<close> into the target vector,
  preserving their order; the code treats a return value of 1 as an error, here \<open>None\<close>,
  which is what a range outside the source vector gives.
\<close>

definition strvec_slice :: "string list \<Rightarrow> int \<Rightarrow> int \<Rightarrow> string list option" where
  "strvec_slice src start end =
     (if 0 \<le> start \<and> start \<le> end \<and> end \<le> int (length src)
      then Some (take (nat (end - start)) (drop (nat start) src))
      else None)"

section \<open>Segmentation (run_pipelined_commands, lines 94 to 139)\<close>

text \<open>
  The \<^verbatim>\<open>while\<close> loop. \<open>sliced_tokens\<close> is the filled part of the array of target vectors,
  so \<^verbatim>\<open>n_added_commands\<close> is its length. \<open>None\<close> is the early \<^verbatim>\<open>return 1\<close> after a
  failed \<^verbatim>\<open>strvec_slice\<close>; otherwise the loop ends with the remaining \<open>cur_tokens\<close>.
\<close>

function seg_loop ::
  "string list \<Rightarrow> string list \<Rightarrow> int \<Rightarrow> string list list \<Rightarrow> (string list \<times> string list list) option"
where
  "seg_loop tokens cur_tokens start_idx sliced_tokens =
     (let pipe_token_idx = strvec_find cur_tokens ''|'' in
      if pipe_token_idx \<noteq> -1 then
        (case strvec_slice cur_tokens 0 pipe_token_idx of
           None \<Rightarrow> None
         | Some target \<Rightarrow>
             (case strvec_slice tokens (start_idx + (pipe_token_idx + 1)) (int (length tokens)) of
                None \<Rightarrow> None
              | Some cur_tokens' \<Rightarrow>
                  seg_loop tokens cur_tokens' (start_idx + (pipe_token_idx + 1))
                    (sliced_tokens @ [target])))
      else Some (cur_tokens, sliced_tokens))"
  by pat_completeness auto
termination
proof (relation "measure (\<lambda>(tokens, cur_tokens, start_idx, sliced_tokens).
                            nat (int (length tokens) - start_idx))")
  show "wf (measure (\<lambda>(tokens, cur_tokens, start_idx, sliced_tokens).
                      nat (int (length tokens) - start_idx)))"
    by simp
next
  fix tokens cur_tokens :: "string list" and start_idx :: int
    and sliced_tokens :: "string list list" and pipe_token_idx :: int
    and target cur_tokens' :: "string list"
  assume idx: "pipe_token_idx = strvec_find cur_tokens ''|''" "pipe_token_idx \<noteq> - 1"
    and sl: "strvec_slice tokens (start_idx + (pipe_token_idx + 1)) (int (length tokens))
               = Some cur_tokens'"
  have "- 1 \<le> strvec_find cur_tokens ''|''"
    by (induction cur_tokens) (auto simp: Let_def)
  then have "0 \<le> pipe_token_idx"
    using idx by linarith
  moreover have "start_idx + (pipe_token_idx + 1) \<le> int (length tokens)"
    using sl by (simp add: strvec_slice_def split: if_splits)
  ultimately show
    "((tokens, cur_tokens', start_idx + (pipe_token_idx + 1), sliced_tokens @ [target]),
       (tokens, cur_tokens, start_idx, sliced_tokens))
      \<in> measure (\<lambda>(tokens, cur_tokens, start_idx, sliced_tokens).
                    nat (int (length tokens) - start_idx))"
    by simp
qed

declare seg_loop.simps [simp del]

text \<open>
  The whole segmentation step: the copy of \<open>tokens\<close> into \<open>cur_tokens\<close>, the loop, and the
  final target vector. The result is the array \<open>sliced_tokens\<close>.
\<close>

definition segment :: "string list \<Rightarrow> string list list option" where
  "segment tokens =
     (case strvec_slice tokens 0 (int (length tokens)) of
        None \<Rightarrow> None
      | Some cur_tokens \<Rightarrow>
          (case seg_loop tokens cur_tokens 0 [] of
             None \<Rightarrow> None
           | Some (cur_tokens', sliced_tokens) \<Rightarrow>
               (case strvec_slice cur_tokens' 0 (int (length cur_tokens')) of
                  None \<Rightarrow> None
                | Some target \<Rightarrow> Some (sliced_tokens @ [target]))))"

text \<open>Putting the delimiter back between consecutive segments.\<close>

fun join_segments :: "string \<Rightarrow> string list list \<Rightarrow> string list" where
  "join_segments d [] = []"
| "join_segments d [seg] = seg"
| "join_segments d (seg # seg' # segs) = seg @ d # join_segments d (seg' # segs)"

section \<open>run_piped_command\<close>

text \<open>
  How a piece of code of a child process ends: it returns a value to its caller, or the
  process is gone (its image was replaced, or it called \<^verbatim>\<open>exit\<close>) with a final status.
\<close>

datatype 'a ctl = Ret 'a | Gone int

text \<open>
  \<open>i\<close> is the index of the child process that runs the function (it selects the child's
  part of the operating system), \<open>tr\<close> the calls the child has made so far. The body
  follows the source: the optional redirection of standard input, the optional
  redirection of standard output, then \<^verbatim>\<open>run_command\<close>. A \<^verbatim>\<open>run_command\<close> that returns 1
  makes the function return 1; one that returns anything else makes it return 0.
\<close>

definition run_piped_command ::
  "os \<Rightarrow> nat \<Rightarrow> string list \<Rightarrow> endpoint option list \<Rightarrow> nat \<Rightarrow> int \<Rightarrow> int \<Rightarrow> call list
     \<Rightarrow> int ctl \<times> call list"
where
  "run_piped_command os i tokens pipes n_pipes in_idx out_idx tr =
     (let ok = sys_ok os (Child i);
          din = Dup2 in_idx (slot pipes in_idx) STDIN_FILENO;
          cin = Close in_idx (slot pipes in_idx);
          dout = Dup2 out_idx (slot pipes out_idx) STDOUT_FILENO;
          cout = Close out_idx (slot pipes out_idx);
          tr1 = (if in_idx \<noteq> -1 then tr @ [din] else tr);
          tr2 = (if in_idx \<noteq> -1 then tr1 @ [cin] else tr1);
          tr3 = (if out_idx \<noteq> -1 then tr2 @ [dout] else tr2);
          tr4 = (if out_idx \<noteq> -1 then tr3 @ [cout] else tr3);
          tr5 = tr4 @ [RunCommand tokens]
      in
      if in_idx \<noteq> -1 \<and> \<not> ok din then (Ret 1, tr1)
      else if in_idx \<noteq> -1 \<and> \<not> ok cin then (Ret 1, tr2)
      else if out_idx \<noteq> -1 \<and> \<not> ok dout then (Ret 1, tr3)
      else if out_idx \<noteq> -1 \<and> \<not> ok cout then (Ret 1, tr4)
      else (case run_command os i tokens of
              Replaced st \<Rightarrow> (Gone st, tr5)
            | Returned v \<Rightarrow> (if v = 1 then (Ret 1, tr5) else (Ret 0, tr5))))"

section \<open>run_pipelined_commands: the child branch\<close>

text \<open>
  What the caller does with the result of \<^verbatim>\<open>run_piped_command\<close>:
  \<^verbatim>\<open>if (run_piped_command(...) == -1) exit(1);\<close> and then, after the branch, \<^verbatim>\<open>exit(0)\<close>.
  The result is the exit status of the process.
\<close>

fun child_exit :: "int ctl \<times> call list \<Rightarrow> int \<times> call list" where
  "child_exit (Gone st, tr) = (st, tr)"
| "child_exit (Ret r, tr) = (if r = -1 then 1 else 0, tr)"

text \<open>
  The branch \<^verbatim>\<open>child_pid == 0\<close> of loop iteration \<open>i\<close>, run by the new process on its copy
  of \<open>pipe_fds\<close>. The three cases are tested in the order of the source: first command,
  last command, middle command. The result is the exit status of the child and the calls
  it made. \<open>sliced_tokens + i\<close> is inside the array since \<open>i < ncommands\<close>; the model
  reads an empty vector outside it.
\<close>

definition child_branch ::
  "os \<Rightarrow> string list list \<Rightarrow> endpoint option list \<Rightarrow> nat \<Rightarrow> nat \<Rightarrow> nat \<Rightarrow> int \<times> call list"
where
  "child_branch os sliced_tokens pipe_fds num_pipes ncommands i =
     (let ok = sys_ok os (Child i);
          cur_token_vector = (if i < length sliced_tokens then sliced_tokens ! i else []);
          c = Close (2 * int i) (slot pipe_fds (2 * int i))
      in
      if i = 0 then
        (if \<not> ok c then (1, [c])
         else child_exit
                (run_piped_command os i cur_token_vector pipe_fds num_pipes (-1) 1 [c]))
      else if int i = int ncommands - 1 then
        child_exit
          (run_piped_command os i cur_token_vector pipe_fds num_pipes
             (2 * (int ncommands - 1) - 2) (-1) [])
      else
        (if \<not> ok c then (1, [c])
         else child_exit
                (run_piped_command os i cur_token_vector pipe_fds num_pipes
                   (2 * int i - 2) (2 * int i + 1) [c])))"

section \<open>run_pipelined_commands: the spawn loop and the wait loop\<close>

text \<open>
  A spawned process: its loop index, the calls of the parent it inherited the effects of
  (the parent's calls up to and including its \<^verbatim>\<open>fork\<close>), its own calls and its exit status.
\<close>

record child =
  cidx :: nat
  inherited :: "call list"
  calls :: "call list"
  status :: int

text \<open>The state of the parent: the array \<open>pipe_fds\<close>, its calls so far, the children.\<close>

record pstate =
  pipe_fds :: "endpoint option list"
  trace :: "call list"
  children :: "child list"

definition emit :: "call \<Rightarrow> pstate \<Rightarrow> pstate" where
  "emit c s = s\<lparr>trace := trace s @ [c]\<rparr>"

text \<open>
  A successful \<^verbatim>\<open>pipe(pipe_fds + 2*i)\<close> stores the read end in slot \<open>2*i\<close> and the write
  end in slot \<open>2*i+1\<close>. The guard \<open>i \<noteq> ncommands - 1\<close> of the caller keeps both inside
  the array of \<open>2 * num_pipes\<close> slots.
\<close>

definition store_pipe :: "nat \<Rightarrow> pstate \<Rightarrow> pstate" where
  "store_pipe i s =
     s\<lparr>pipe_fds := (pipe_fds s)[2 * i := Some (i, RdEnd), 2 * i + 1 := Some (i, WrEnd)]\<rparr>"

definition spawn_child ::
  "os \<Rightarrow> string list list \<Rightarrow> nat \<Rightarrow> nat \<Rightarrow> nat \<Rightarrow> pstate \<Rightarrow> pstate"
where
  "spawn_child os sliced_tokens num_pipes ncommands i s =
     (let (st, tr) = child_branch os sliced_tokens (pipe_fds s) num_pipes ncommands i
      in s\<lparr>children := children s @
              [\<lparr>cidx = i, inherited = trace s, calls = tr, status = st\<rparr>]\<rparr>)"

text \<open>
  One iteration of the \<^verbatim>\<open>for\<close> loop over the commands, in the parent. \<open>Some 1\<close> is an early
  \<^verbatim>\<open>return 1\<close>, \<open>None\<close> the end of the iteration. In order: the \<^verbatim>\<open>pipe\<close> call unless this is
  the last command; the \<^verbatim>\<open>fork\<close>; when it fails, the two \<^verbatim>\<open>close\<close> calls on the slots
  \<open>2*i\<close> and \<open>2*i+1\<close> and \<^verbatim>\<open>return 1\<close>; when it succeeds, the child runs its branch and the
  parent closes slot \<open>2*i-2\<close> unless this is the first command and slot \<open>2*i+1\<close> unless this
  is the last one, returning 1 as soon as a \<^verbatim>\<open>close\<close> fails.
\<close>

definition spawn_iter ::
  "os \<Rightarrow> string list list \<Rightarrow> nat \<Rightarrow> nat \<Rightarrow> nat \<Rightarrow> pstate \<Rightarrow> int option \<times> pstate"
where
  "spawn_iter os sliced_tokens num_pipes ncommands i s =
     (let ok = sys_ok os Parent;
          last = (int i = int ncommands - 1);
          s1 = (if \<not> last then emit (Pipe i) s else s)
      in
      if \<not> last \<and> \<not> ok (Pipe i) then (Some 1, s1)
      else
        (let s2 = (if \<not> last then store_pipe i s1 else s1);
             s3 = emit (Fork i) s2
         in
         if \<not> ok (Fork i) then
           (let c1 = Close (2 * int i) (slot (pipe_fds s3) (2 * int i));
                c2 = Close (2 * int i + 1) (slot (pipe_fds s3) (2 * int i + 1))
            in
            if \<not> ok c1 then (Some 1, emit c1 s3)
            else if \<not> ok c2 then (Some 1, emit c2 (emit c1 s3))
            else (Some 1, emit c2 (emit c1 s3)))
         else
           (let s4 = spawn_child os sliced_tokens num_pipes ncommands i s3;
                cp = Close (2 * int i - 2) (slot (pipe_fds s4) (2 * int i - 2));
                cw = Close (2 * int i + 1) (slot (pipe_fds s4) (2 * int i + 1));
                s5 = (if i \<noteq> 0 then emit cp s4 else s4);
                s6 = (if \<not> last then emit cw s5 else s5)
            in
            if i \<noteq> 0 \<and> \<not> ok cp then (Some 1, s5)
            else if \<not> last \<and> \<not> ok cw then (Some 1, s6)
            else (None, s6))))"

function spawn_loop ::
  "os \<Rightarrow> string list list \<Rightarrow> nat \<Rightarrow> nat \<Rightarrow> nat \<Rightarrow> pstate \<Rightarrow> int option \<times> pstate"
where
  "spawn_loop os sliced_tokens num_pipes ncommands i s =
     (if i < ncommands then
        (case spawn_iter os sliced_tokens num_pipes ncommands i s of
           (Some r, s') \<Rightarrow> (Some r, s')
         | (None, s') \<Rightarrow> spawn_loop os sliced_tokens num_pipes ncommands (i + 1) s')
      else (None, s))"
  by pat_completeness auto
termination
  by (relation "measure (\<lambda>(os, sliced_tokens, num_pipes, ncommands, i, s). ncommands - i)") auto

declare spawn_loop.simps [simp del]

text \<open>\<^verbatim>\<open>for (i = 0; i < ncommands; i++) if (wait(NULL) == -1) return 1;\<close>\<close>

function wait_loop :: "os \<Rightarrow> nat \<Rightarrow> nat \<Rightarrow> pstate \<Rightarrow> int option \<times> pstate" where
  "wait_loop os ncommands i s =
     (if i < ncommands then
        (if \<not> sys_ok os Parent (Wait i) then (Some 1, emit (Wait i) s)
         else wait_loop os ncommands (i + 1) (emit (Wait i) s))
      else (None, s))"
  by pat_completeness auto
termination
  by (relation "measure (\<lambda>(os, ncommands, i, s). ncommands - i)") auto

declare wait_loop.simps [simp del]

section \<open>run_pipelined_commands\<close>

text \<open>
  The result is the return value of the function and the final state of the parent.
  \<^verbatim>\<open>wait(NULL)\<close> discards the status of the process it reaps, so no status reaches the
  return value.
\<close>

definition run_pipelined_commands :: "os \<Rightarrow> string list \<Rightarrow> int \<times> pstate" where
  "run_pipelined_commands os tokens =
     (let num_pipes = strvec_num_occurrences tokens ''|'';
          ncommands = num_pipes + 1;
          s0 = \<lparr>pipe_fds = [], trace = [], children = []\<rparr>
      in
      if \<not> malloc_ok os then (1, s0)
      else
        (case segment tokens of
           None \<Rightarrow> (1, s0)
         | Some sliced_tokens \<Rightarrow>
             (let s1 = s0\<lparr>pipe_fds := replicate (2 * num_pipes) None\<rparr> in
              case spawn_loop os sliced_tokens num_pipes ncommands 0 s1 of
                (Some r, s2) \<Rightarrow> (r, s2)
              | (None, s2) \<Rightarrow>
                  (case wait_loop os ncommands 0 s2 of
                     (Some r, s3) \<Rightarrow> (r, s3)
                   | (None, s3) \<Rightarrow> (0, s3)))))"

section \<open>Observations on a run\<close>

text \<open>
  The definitions of this section are not code of the program: they name what the
  statements below are about. The first group spells out one loop iteration in which
  no call fails: the array after the \<^verbatim>\<open>pipe\<close> call, the calls up to the \<^verbatim>\<open>fork\<close>, the
  \<^verbatim>\<open>close\<close> calls of the parent, and the child that the \<^verbatim>\<open>fork\<close> creates.
\<close>

definition fds_after :: "nat \<Rightarrow> nat \<Rightarrow> endpoint option list \<Rightarrow> endpoint option list" where
  "fds_after ncommands i fds =
     (if i + 1 < ncommands then fds[2 * i := Some (i, RdEnd), 2 * i + 1 := Some (i, WrEnd)] else fds)"

definition fork_calls :: "nat \<Rightarrow> nat \<Rightarrow> call list" where
  "fork_calls ncommands i = (if i + 1 < ncommands then [Pipe i] else []) @ [Fork i]"

definition close_calls :: "nat \<Rightarrow> nat \<Rightarrow> endpoint option list \<Rightarrow> call list" where
  "close_calls ncommands i fds =
     (if i \<noteq> 0 then [Close (2 * int i - 2) (slot fds (2 * int i - 2))] else []) @
     (if i + 1 < ncommands then [Close (2 * int i + 1) (slot fds (2 * int i + 1))] else [])"

definition new_child ::
  "os \<Rightarrow> string list list \<Rightarrow> nat \<Rightarrow> nat \<Rightarrow> nat \<Rightarrow> endpoint option list \<Rightarrow> call list \<Rightarrow> child"
where
  "new_child os segs np ncommands i fds tr =
     \<lparr>cidx = i, inherited = tr,
      calls = snd (child_branch os segs fds np ncommands i),
      status = fst (child_branch os segs fds np ncommands i)\<rparr>"


text \<open>
  The endpoints a process holds open after a sequence of successful calls: \<^verbatim>\<open>pipe\<close> opens
  both ends of a new channel, \<^verbatim>\<open>close\<close> of the descriptor of an endpoint releases it.
  A child starts from the calls it inherited from the parent.
\<close>

fun fd_step :: "endpoint list \<Rightarrow> call \<Rightarrow> endpoint list" where
  "fd_step fs (Pipe i) = fs @ [(i, RdEnd), (i, WrEnd)]"
| "fd_step fs (Close k (Some e)) = removeAll e fs"
| "fd_step fs c = fs"

definition open_fds :: "call list \<Rightarrow> endpoint list" where
  "open_fds tr = foldl fd_step [] tr"

text \<open>How often a list of calls closes the descriptor of endpoint \<open>e\<close>; the \<^verbatim>\<open>wait\<close> calls.\<close>

fun closes :: "endpoint \<Rightarrow> call \<Rightarrow> bool" where
  "closes e (Close k d) = (d = Some e)"
| "closes e c = False"

definition closes_of :: "endpoint \<Rightarrow> call list \<Rightarrow> nat" where
  "closes_of e tr = length (filter (closes e) tr)"

fun is_wait :: "call \<Rightarrow> bool" where
  "is_wait (Wait i) = True"
| "is_wait c = False"

definition n_waits :: "call list \<Rightarrow> nat" where
  "n_waits tr = length (filter is_wait tr)"

text \<open>
  \<open>wired np i fds\<close>: the array has \<open>2 * np\<close> slots and the channels allocated before
  iteration \<open>i\<close> sit in their slots, read end at \<open>2 * c\<close> and write end at \<open>2 * c + 1\<close>.
\<close>

definition wired :: "nat \<Rightarrow> nat \<Rightarrow> endpoint option list \<Rightarrow> bool" where
  "wired np i fds \<longleftrightarrow>
     length fds = 2 * np \<and>
     (\<forall>c. c < i \<and> c < np \<longrightarrow> fds ! (2 * c) = Some (c, RdEnd) \<and> fds ! (2 * c + 1) = Some (c, WrEnd))"

text \<open>
  What holds of every spawned child: it ran the child branch on an array wired up to its
  own channel, and it inherited open the read end of the previous channel (unless it is
  the first) and both ends of its own channel (unless it is the last).
\<close>

definition child_inv :: "os \<Rightarrow> string list list \<Rightarrow> nat \<Rightarrow> child \<Rightarrow> bool" where
  "child_inv os segs np ch \<longleftrightarrow>
     (\<exists>fds. wired np (Suc (cidx ch)) fds
        \<and> calls ch = snd (child_branch os segs fds np (Suc np) (cidx ch))
        \<and> status ch = fst (child_branch os segs fds np (Suc np) (cidx ch)))
     \<and> open_fds (inherited ch)
         = (if 0 < cidx ch then [(cidx ch - 1, RdEnd)] else []) @
           (if cidx ch < np then [(cidx ch, RdEnd), (cidx ch, WrEnd)] else [])"

text \<open>
  The loop invariant of the spawn loop at the start of iteration \<open>i\<close>, for \<open>np + 1\<close>
  commands: no call has failed so far; the parent holds open only the read end of channel
  \<open>i - 1\<close>; it has closed the write ends of the channels before \<open>i\<close> and the read ends of
  the channels before \<open>i - 1\<close>, each once; it has not waited; the children are those of the
  iterations before \<open>i\<close>.
\<close>

definition parent_inv :: "os \<Rightarrow> string list list \<Rightarrow> nat \<Rightarrow> nat \<Rightarrow> pstate \<Rightarrow> bool" where
  "parent_inv os segs np i s \<longleftrightarrow>
     wired np i (pipe_fds s) \<and>
     (\<forall>c \<in> set (trace s). sys_ok os Parent c) \<and>
     open_fds (trace s) = (if 0 < i \<and> i \<le> np then [(i - 1, RdEnd)] else []) \<and>
     (\<forall>c. closes_of (c, WrEnd) (trace s) = (if c < i \<and> c < np then 1 else 0)) \<and>
     (\<forall>c. closes_of (c, RdEnd) (trace s) = (if c + 1 < i then 1 else 0)) \<and>
     n_waits (trace s) = 0 \<and>
     map cidx (children s) = [0 ..< i] \<and>
     (\<forall>ch \<in> set (children s). child_inv os segs np ch)"

fun is_close :: "call \<Rightarrow> bool" where
  "is_close (Close k d) = True"
| "is_close c = False"

text \<open>The three things a caller can observe of a run.\<close>

definition return_value :: "os \<Rightarrow> string list \<Rightarrow> int" where
  "return_value os tokens = fst (run_pipelined_commands os tokens)"

definition parent_calls :: "os \<Rightarrow> string list \<Rightarrow> call list" where
  "parent_calls os tokens = trace (snd (run_pipelined_commands os tokens))"

definition spawned :: "os \<Rightarrow> string list \<Rightarrow> child list" where
  "spawned os tokens = children (snd (run_pipelined_commands os tokens))"

fun is_dup2 :: "call \<Rightarrow> bool" where
  "is_dup2 (Dup2 k d st) = True"
| "is_dup2 c = False"

text \<open>
  Environments for the examples: one in which every call succeeds and every command runs
  and exits with status 0; one in which a single call of a single process fails; one in
  which \<^verbatim>\<open>run_command\<close> returns the value \<open>v\<close> in child \<open>j\<close>; one in which the command of
  child \<open>j\<close> runs and exits with status \<open>v\<close>.
\<close>

definition os_ok :: os where
  "os_ok = \<lparr>malloc_ok = True, sys_ok = (\<lambda>p c. True), run_command = (\<lambda>i t. Replaced 0)\<rparr>"

definition fails_at :: "pid \<Rightarrow> call \<Rightarrow> os" where
  "fails_at p c = os_ok\<lparr>sys_ok := (\<lambda>q d. \<not> (q = p \<and> d = c))\<rparr>"

definition runner_returns :: "nat \<Rightarrow> int \<Rightarrow> os" where
  "runner_returns j v = os_ok\<lparr>run_command := (\<lambda>i t. if i = j then Returned v else Replaced 0)\<rparr>"

definition exits_with :: "nat \<Rightarrow> int \<Rightarrow> os" where
  "exits_with j v = os_ok\<lparr>run_command := (\<lambda>i t. if i = j then Replaced v else Replaced 0)\<rparr>"

section \<open>Properties of close_all\<close>

lemma close_all_loop_fst:
  "fst (close_all_loop ok fds n i r tr) =
     (if r = 1 \<or> (\<exists>j. i \<le> j \<and> int j < n \<and> \<not> ok (Close (int j) (slot fds (int j)))) then 1 else r)"
proof (induction ok fds n i r tr rule: close_all_loop.induct)
  case (1 ok fds n i ret_val tr)
  show ?case
  proof (cases "int i < n")
    case False
    then show ?thesis by (subst close_all_loop.simps) auto
  next
    case True
    let ?c = "Close (int i) (slot fds (int i))"
    have step: "fst (close_all_loop ok fds n i ret_val tr) =
          fst (close_all_loop ok fds n (i + 1) (if \<not> ok ?c then 1 else ret_val) (tr @ [?c]))"
      using True by (subst close_all_loop.simps) (simp add: Let_def)
    have split: "(\<exists>j. i \<le> j \<and> int j < n \<and> \<not> ok (Close (int j) (slot fds (int j)))) \<longleftrightarrow>
          (\<not> ok ?c \<or> (\<exists>j. i + 1 \<le> j \<and> int j < n \<and> \<not> ok (Close (int j) (slot fds (int j)))))"
      proof -
      have "\<And>j. i \<le> j \<longleftrightarrow> j = i \<or> i + 1 \<le> j" by auto
      then show ?thesis using True by (metis (no_types, lifting))
    qed
    show ?thesis
      unfolding step split using "1.IH" [OF True refl refl] by auto
  qed
qed

lemma close_all_loop_snd:
  "snd (close_all_loop ok fds n i r tr) =
     tr @ map (\<lambda>j. Close (int j) (slot fds (int j))) [i ..< nat n]"
proof (induction ok fds n i r tr rule: close_all_loop.induct)
  case (1 ok fds n i ret_val tr)
  show ?case
  proof (cases "int i < n")
    case False
    then show ?thesis by (subst close_all_loop.simps) auto
  next
    case True
    then have lt: "i < nat n" by linarith
    let ?c = "Close (int i) (slot fds (int i))"
    have step: "snd (close_all_loop ok fds n i ret_val tr) =
          snd (close_all_loop ok fds n (i + 1) (if \<not> ok ?c then 1 else ret_val) (tr @ [?c]))"
      using True by (subst close_all_loop.simps) (simp add: Let_def)
    show ?thesis
      unfolding step using "1.IH" [OF True refl refl] lt by (simp add: upt_conv_Cons)
  qed
qed


text \<open>
  Claim C10. For a descriptor array of length \<open>n\<close>, \<open>close_all\<close> calls \<^verbatim>\<open>close\<close> on every
  one of the \<open>n\<close> descriptors, in order, whether or not an earlier call failed; it returns
  0 when every call succeeds and 1 when at least one fails.
\<close>

theorem close_all_closes_every_descriptor:
  assumes "n = int (length fds)"
  shows "snd (close_all ok fds n) = map (\<lambda>j. Close (int j) (fds ! j)) [0 ..< length fds]
       \<and> fst (close_all ok fds n)
           = (if \<forall>j < length fds. ok (Close (int j) (fds ! j)) then 0 else 1)"
proof -
  have sl: "\<And>j. j < length fds \<Longrightarrow> slot fds (int j) = fds ! j"
    by (simp add: slot_def)
  have "snd (close_all ok fds n) = map (\<lambda>j. Close (int j) (slot fds (int j))) [0 ..< length fds]"
    using assms by (simp add: close_all_def close_all_loop_snd)
  also have "\<dots> = map (\<lambda>j. Close (int j) (fds ! j)) [0 ..< length fds]"
    by (rule map_cong) (simp_all add: sl)
  finally have tr: "snd (close_all ok fds n) = map (\<lambda>j. Close (int j) (fds ! j)) [0 ..< length fds]" .
  have "(\<exists>j. int j < n \<and> \<not> ok (Close (int j) (slot fds (int j))))
          \<longleftrightarrow> \<not> (\<forall>j < length fds. ok (Close (int j) (fds ! j)))"
    using assms sl by auto
  then have "fst (close_all ok fds n)
           = (if \<forall>j < length fds. ok (Close (int j) (fds ! j)) then 0 else 1)"
    by (simp add: close_all_def close_all_loop_fst)
  with tr show ?thesis by simp
qed

theorem close_all_closes_every_descriptor_witness:
  "close_all (\<lambda>c. c \<noteq> Close 0 (Some (0, RdEnd))) [Some (0, RdEnd), Some (0, WrEnd)] 2
     = (1, [Close 0 (Some (0, RdEnd)), Close 1 (Some (0, WrEnd))])"
  using close_all_closes_every_descriptor
          [of 2 "[Some (0, RdEnd), Some (0, WrEnd)]" "\<lambda>c. c \<noteq> Close 0 (Some (0, RdEnd))"]
  by (simp add: prod_eq_iff upt_conv_Cons)

section \<open>Properties of the segmentation\<close>

lemma strvec_find_none: "strvec_find vec s = - 1 \<longleftrightarrow> s \<notin> set vec"
proof (induction vec)
  case Nil
  show ?case by simp
next
  case (Cons x xs)
  have "- 1 \<le> strvec_find xs s"
    by (induction xs) (auto simp: Let_def)
  with Cons show ?case by (auto simp: Let_def)
qed

lemma strvec_find_split:
  "s \<in> set vec \<Longrightarrow>
     \<exists>pre post. vec = pre @ s # post \<and> s \<notin> set pre \<and> strvec_find vec s = int (length pre)"
proof (induction vec)
  case Nil
  then show ?case by simp
next
  case (Cons x xs)
  show ?case
  proof (cases "x = s")
    case True
    then have "x # xs = [] @ s # xs \<and> s \<notin> set [] \<and> strvec_find (x # xs) s = int (length ([] :: string list))"
      by simp
    then show ?thesis by blast
  next
    case False
    with Cons.prems have "s \<in> set xs" by simp
    from Cons.IH [OF this] obtain pre post
      where p: "xs = pre @ s # post" "s \<notin> set pre" "strvec_find xs s = int (length pre)"
      by blast
    have "x # xs = (x # pre) @ s # post \<and> s \<notin> set (x # pre)
            \<and> strvec_find (x # xs) s = int (length (x # pre))"
      using False p by (simp add: Let_def)
    then show ?thesis by blast
  qed
qed

lemma join_segments_Cons:
  "rest \<noteq> [] \<Longrightarrow> join_segments d (seg # rest) = seg @ d # join_segments d rest"
  by (cases rest) simp_all

lemma seg_loop_correct:
  "0 \<le> start_idx \<Longrightarrow> nat start_idx \<le> length tokens \<Longrightarrow>
   cur_tokens = drop (nat start_idx) tokens \<Longrightarrow>
   \<exists>rest segs. seg_loop tokens cur_tokens start_idx sliced_tokens = Some (rest, sliced_tokens @ segs)
      \<and> length segs = count_list cur_tokens ''|''
      \<and> join_segments ''|'' (segs @ [rest]) = cur_tokens
      \<and> (\<forall>seg \<in> set (segs @ [rest]). ''|'' \<notin> set seg)"
proof (induction tokens cur_tokens start_idx sliced_tokens rule: seg_loop.induct)
  case (1 tokens cur_tokens start_idx sliced_tokens)
  show ?case
  proof (cases "''|'' \<in> set cur_tokens")
    case False
    then have "strvec_find cur_tokens ''|'' = - 1"
      by (simp add: strvec_find_none)
    then have "seg_loop tokens cur_tokens start_idx sliced_tokens = Some (cur_tokens, sliced_tokens @ [])"
      by (subst seg_loop.simps) simp
    moreover have "length ([] :: string list list) = count_list cur_tokens ''|''"
      using False by simp
    ultimately show ?thesis using False by fastforce
  next
    case True
    from strvec_find_split [OF True] obtain pre post
      where sp: "cur_tokens = pre @ ''|'' # post" "''|'' \<notin> set pre"
        "strvec_find cur_tokens ''|'' = int (length pre)"
      by blast
    let ?idx = "int (length pre)"
    let ?start = "start_idx + (?idx + 1)"
    have ne: "?idx \<noteq> - 1" by simp
    have len: "length cur_tokens = length tokens - nat start_idx"
      using "1.prems" by simp
    have len2: "length cur_tokens = length pre + 1 + length post"
      using sp(1) by simp
    have target: "strvec_slice cur_tokens 0 ?idx = Some pre"
      using sp(1) by (simp add: strvec_slice_def)
    have nat_start: "nat ?start = nat start_idx + (length pre + 1)"
      using "1.prems"(1) by linarith
    have bound: "nat ?start \<le> length tokens"
      using len len2 nat_start by linarith
    have "drop (length pre + 1) cur_tokens = post"
      unfolding sp(1) by simp
    moreover have "drop (nat ?start) tokens = drop (length pre + 1) cur_tokens"
      unfolding nat_start "1.prems"(3) drop_drop by (simp add: add.commute)
    ultimately have dr: "drop (nat ?start) tokens = post"
      by simp
    have start_ge: "0 \<le> ?start"
      using "1.prems"(1) by simp
    have start_le: "?start \<le> int (length tokens)"
      using bound "1.prems"(1) by linarith
    have eqn: "nat (int (length tokens) - ?start) = length tokens - nat ?start"
      using "1.prems"(1) by linarith
    have "take (nat (int (length tokens) - ?start)) (drop (nat ?start) tokens)
            = drop (nat ?start) tokens"
      unfolding eqn by simp
    then have cur': "strvec_slice tokens ?start (int (length tokens)) = Some post"
      unfolding strvec_slice_def using start_ge start_le dr by simp
    have step: "seg_loop tokens cur_tokens start_idx sliced_tokens
                  = seg_loop tokens post ?start (sliced_tokens @ [pre])"
      by (subst seg_loop.simps) (simp add: sp(3) target cur' del: of_nat_add)
    from "1.IH" [OF sp(3) [symmetric] ne target cur' start_ge bound dr [symmetric]]
    obtain rest segs where ih:
      "seg_loop tokens post ?start (sliced_tokens @ [pre]) = Some (rest, (sliced_tokens @ [pre]) @ segs)"
      "length segs = count_list post ''|''"
      "join_segments ''|'' (segs @ [rest]) = post"
      "\<forall>seg \<in> set (segs @ [rest]). ''|'' \<notin> set seg"
      by blast
    have a: "seg_loop tokens cur_tokens start_idx sliced_tokens
               = Some (rest, sliced_tokens @ (pre # segs))"
      using step ih(1) by simp
    have b: "length (pre # segs) = count_list cur_tokens ''|''"
      using ih(2) sp(1,2) by simp
    have c: "join_segments ''|'' ((pre # segs) @ [rest]) = cur_tokens"
      using ih(3) sp(1) by (simp add: join_segments_Cons)
    have d: "\<forall>seg \<in> set ((pre # segs) @ [rest]). ''|'' \<notin> set seg"
      using ih(4) sp(2) by simp
    from a b c d show ?thesis by blast
  qed
qed

lemma segment_correct:
  "\<exists>segs. segment tokens = Some segs
      \<and> length segs = count_list tokens ''|'' + 1
      \<and> join_segments ''|'' segs = tokens
      \<and> (\<forall>seg \<in> set segs. ''|'' \<notin> set seg)"
proof -
  have copy: "strvec_slice tokens 0 (int (length tokens)) = Some tokens"
    by (simp add: strvec_slice_def)
  from seg_loop_correct [of 0 tokens tokens "[]"]
  obtain rest segs where r:
    "seg_loop tokens tokens 0 [] = Some (rest, segs)"
    "length segs = count_list tokens ''|''"
    "join_segments ''|'' (segs @ [rest]) = tokens"
    "\<forall>seg \<in> set (segs @ [rest]). ''|'' \<notin> set seg"
    by auto
  have fin: "strvec_slice rest 0 (int (length rest)) = Some rest"
    by (simp add: strvec_slice_def)
  have "segment tokens = Some (segs @ [rest])"
    by (simp add: segment_def copy r(1) fin)
  with r show ?thesis by simp
qed

text \<open>
  Claim C2. For every token sequence with \<open>k\<close> occurrences of the delimiter, the
  segmentation step never takes an error return and produces exactly \<open>k + 1\<close> segments,
  and putting the delimiter back between consecutive segments gives the token
  sequence again.
\<close>

theorem segment_count_and_round_trip:
  "\<exists>segs. segment tokens = Some segs
      \<and> length segs = strvec_num_occurrences tokens ''|'' + 1
      \<and> join_segments ''|'' segs = tokens"
  using segment_correct [of tokens] by (auto simp: strvec_num_occurrences_def)

lemma segment_example:
  "segment [''printf'', ''a'', ''|'', ''grep'', ''b''] = Some [[''printf'', ''a''], [''grep'', ''b'']]"
  by code_simp

lemma segment_empty_segments: "segment [''|'', ''|''] = Some [[], [], []]"
  by code_simp

section \<open>The spawn loop and the wait loop, step by step\<close>

lemma spawn_iter_None:
  assumes "i < N" and "spawn_iter os segs np N i s = (None, s')"
  shows "s' = \<lparr>pipe_fds = fds_after N i (pipe_fds s),
               trace = trace s @ fork_calls N i @ close_calls N i (fds_after N i (pipe_fds s)),
               children = children s @
                 [new_child os segs np N i (fds_after N i (pipe_fds s)) (trace s @ fork_calls N i)]\<rparr>"
    and "\<forall>c \<in> set (fork_calls N i @ close_calls N i (fds_after N i (pipe_fds s))). sys_ok os Parent c"
proof -
  have last: "(int i = int N - 1) \<longleftrightarrow> \<not> i + 1 < N"
    using assms(1) by linarith
  show "s' = \<lparr>pipe_fds = fds_after N i (pipe_fds s),
               trace = trace s @ fork_calls N i @ close_calls N i (fds_after N i (pipe_fds s)),
               children = children s @
                 [new_child os segs np N i (fds_after N i (pipe_fds s)) (trace s @ fork_calls N i)]\<rparr>"
    using assms(2) unfolding spawn_iter_def Let_def last
    by (auto simp: emit_def store_pipe_def spawn_child_def fds_after_def fork_calls_def
          close_calls_def new_child_def split_beta split: if_splits)
  show "\<forall>c \<in> set (fork_calls N i @ close_calls N i (fds_after N i (pipe_fds s))). sys_ok os Parent c"
    using assms(2) unfolding spawn_iter_def Let_def last
    by (auto simp: emit_def store_pipe_def spawn_child_def fds_after_def fork_calls_def
          close_calls_def new_child_def split_beta split: if_splits)
qed


lemma open_fds_append: "open_fds (tr @ cs) = foldl fd_step (open_fds tr) cs"
  by (simp add: open_fds_def)

lemma closes_of_append: "closes_of e (tr @ cs) = closes_of e tr + closes_of e cs"
  by (simp add: closes_of_def)

lemma n_waits_append: "n_waits (tr @ cs) = n_waits tr + n_waits cs"
  by (simp add: n_waits_def)

lemma wired_after:
  assumes "wired np i fds" and "i \<le> np"
  shows "wired np (Suc i) (fds_after (Suc np) i fds)"
proof (cases "i < np")
  case False
  with assms show ?thesis by (auto simp: wired_def fds_after_def)
next
  case True
  let ?fds = "fds[2 * i := Some (i, RdEnd), 2 * i + 1 := Some (i, WrEnd)]"
  have fa: "fds_after (Suc np) i fds = ?fds"
    using True by (simp add: fds_after_def)
  have len: "length fds = 2 * np" using assms(1) by (simp add: wired_def)
  have "?fds ! (2 * c) = Some (c, RdEnd) \<and> ?fds ! (2 * c + 1) = Some (c, WrEnd)"
    if c: "c < Suc i" "c < np" for c
  proof (cases "c = i")
    case True
    then show ?thesis using c len by (simp add: nth_list_update)
  next
    case False
    then have "c < i" using c by simp
    then have "fds ! (2 * c) = Some (c, RdEnd)" "fds ! (2 * c + 1) = Some (c, WrEnd)"
      using assms(1) c by (simp_all add: wired_def)
    moreover have "2 * c \<noteq> 2 * i" "2 * c \<noteq> 2 * i + 1" "2 * c + 1 \<noteq> 2 * i" "2 * c + 1 \<noteq> 2 * i + 1"
      using False by presburger+
    ultimately show ?thesis by (simp add: nth_list_update)
  qed
  then show ?thesis
    unfolding fa wired_def using len by simp
qed

lemma slot_nat: "slot fds (int k) = (if k < length fds then fds ! k else None)"
  by (simp add: slot_def)

lemma wired_slot_rd:
  assumes "wired np i fds" and "c < i" and "c < np"
  shows "slot fds (2 * int c) = Some (c, RdEnd)"
proof -
  have "2 * int c = int (2 * c)" by simp
  moreover have "2 * c < length fds" using assms by (simp add: wired_def)
  moreover have "fds ! (2 * c) = Some (c, RdEnd)" using assms by (simp add: wired_def)
  ultimately show ?thesis by (simp only: slot_nat if_True)
qed

lemma wired_slot_wr:
  assumes "wired np i fds" and "c < i" and "c < np"
  shows "slot fds (2 * int c + 1) = Some (c, WrEnd)"
proof -
  have "2 * int c + 1 = int (2 * c + 1)" by simp
  moreover have "2 * c + 1 < length fds" using assms by (simp add: wired_def)
  moreover have "fds ! (2 * c + 1) = Some (c, WrEnd)" using assms by (simp add: wired_def)
  ultimately show ?thesis by (simp only: slot_nat if_True)
qed

lemma wired_slot_prev:
  assumes "wired np (Suc i) fds" and "0 < i" and "i \<le> np"
  shows "slot fds (2 * int i - 2) = Some (i - 1, RdEnd)"
proof -
  obtain j where j: "i = Suc j" using assms(2) by (cases i) simp_all
  have "slot fds (2 * int j) = Some (j, RdEnd)"
  proof (rule wired_slot_rd [OF assms(1)])
    show "j < Suc i" using j by simp
    show "j < np" using j assms(3) by simp
  qed
  moreover have "2 * int i - 2 = 2 * int j" unfolding j by simp
  ultimately show ?thesis unfolding j by simp
qed


lemma close_calls_wired:
  assumes "wired np (Suc i) fds" and "i \<le> np"
  shows "close_calls (Suc np) i fds =
           (if i \<noteq> 0 then [Close (2 * int i - 2) (Some (i - 1, RdEnd))] else []) @
           (if i < np then [Close (2 * int i + 1) (Some (i, WrEnd))] else [])"
proof -
  have a: "i \<noteq> 0 \<Longrightarrow> slot fds (2 * int i - 2) = Some (i - 1, RdEnd)"
    using wired_slot_prev [OF assms(1) _ assms(2)] by simp
  have b: "i < np \<Longrightarrow> slot fds (2 * int i + 1) = Some (i, WrEnd)"
    using wired_slot_wr [OF assms(1), of i] by simp
  show ?thesis
    using a b by (simp add: close_calls_def)
qed

lemma fork_calls_simps:
  "closes_of e (fork_calls N i) = 0" "n_waits (fork_calls N i) = 0"
  "foldl fd_step fs (fork_calls (Suc np) i)
     = fs @ (if i < np then [(i, RdEnd), (i, WrEnd)] else [])"
  by (simp_all add: fork_calls_def closes_of_def n_waits_def)

lemma parent_inv_step:
  assumes inv: "parent_inv os segs np i s" and i: "i \<le> np"
    and it: "spawn_iter os segs np (Suc np) i s = (None, s')"
  shows "parent_inv os segs np (Suc i) s'"
proof -
  let ?fds = "fds_after (Suc np) i (pipe_fds s)"
  let ?cl = "(if i \<noteq> 0 then [Close (2 * int i - 2) (Some (i - 1, RdEnd))] else []) @
             (if i < np then [Close (2 * int i + 1) (Some (i, WrEnd))] else [])"
  let ?ch = "new_child os segs np (Suc np) i ?fds (trace s @ fork_calls (Suc np) i)"
  have lt: "i < Suc np" using i by simp
  have w0: "wired np i (pipe_fds s)"
    using inv unfolding parent_inv_def by blast
  have w: "wired np (Suc i) ?fds"
    by (rule wired_after [OF w0 i])
  have cl: "close_calls (Suc np) i ?fds = ?cl"
    by (rule close_calls_wired [OF w i])
  have s': "pipe_fds s' = ?fds" "trace s' = trace s @ fork_calls (Suc np) i @ ?cl"
    "children s' = children s @ [?ch]"
    using spawn_iter_None(1) [OF lt it] cl by simp_all
  have ok: "\<forall>c \<in> set (fork_calls (Suc np) i @ ?cl). sys_ok os Parent c"
    using spawn_iter_None(2) [OF lt it] cl by simp
  have op0: "open_fds (trace s) = (if 0 < i then [(i - 1, RdEnd)] else [])"
    using inv i by (simp add: parent_inv_def)
  have opf: "open_fds (trace s @ fork_calls (Suc np) i)
               = (if 0 < i then [(i - 1, RdEnd)] else []) @
                 (if i < np then [(i, RdEnd), (i, WrEnd)] else [])"
    by (simp add: open_fds_append fork_calls_simps op0)
  have c1: "wired np (Suc i) (pipe_fds s')"
    using w s' by simp
  have c2: "\<forall>c \<in> set (trace s'). sys_ok os Parent c"
    using inv ok unfolding s' parent_inv_def by auto
  have "open_fds (trace s') = foldl fd_step (open_fds (trace s @ fork_calls (Suc np) i)) ?cl"
    unfolding s' by (simp add: open_fds_append)
  also have "\<dots> = (if i < np then [(i, RdEnd)] else [])"
    unfolding opf by auto
  finally have c3: "open_fds (trace s') = (if 0 < Suc i \<and> Suc i \<le> np then [(Suc i - 1, RdEnd)] else [])"
    by simp
  have c4: "\<forall>c. closes_of (c, WrEnd) (trace s') = (if c < Suc i \<and> c < np then 1 else 0)"
  proof
    fix c
    have "closes_of (c, WrEnd) (trace s) = (if c < i \<and> c < np then 1 else 0)"
      using inv by (simp add: parent_inv_def)
    moreover have "closes_of (c, WrEnd) ?cl = (if c = i \<and> i < np then 1 else 0)"
      by (simp add: closes_of_def)
    ultimately show "closes_of (c, WrEnd) (trace s') = (if c < Suc i \<and> c < np then 1 else 0)"
      unfolding s' closes_of_append fork_calls_simps by auto
  qed
  have c5: "\<forall>c. closes_of (c, RdEnd) (trace s') = (if c + 1 < Suc i then 1 else 0)"
  proof
    fix c
    have "closes_of (c, RdEnd) (trace s) = (if c + 1 < i then 1 else 0)"
      using inv by (simp add: parent_inv_def)
    moreover have "closes_of (c, RdEnd) ?cl = (if c + 1 = i then 1 else 0)"
      by (auto simp: closes_of_def)
    ultimately show "closes_of (c, RdEnd) (trace s') = (if c + 1 < Suc i then 1 else 0)"
      unfolding s' closes_of_append fork_calls_simps by auto
  qed
  have "n_waits (trace s) = 0"
    using inv by (simp add: parent_inv_def)
  moreover have "n_waits ?cl = 0"
    by (simp add: n_waits_def)
  ultimately have c6: "n_waits (trace s') = 0"
    unfolding s' n_waits_append fork_calls_simps by simp
  have "map cidx (children s) = [0 ..< i]"
    using inv by (simp add: parent_inv_def)
  then have c7: "map cidx (children s') = [0 ..< Suc i]"
    unfolding s' by (simp add: new_child_def)
  have "child_inv os segs np ?ch"
    unfolding child_inv_def using w opf by (auto simp: new_child_def)
  moreover have "\<forall>ch \<in> set (children s). child_inv os segs np ch"
    using inv by (simp add: parent_inv_def)
  ultimately have c8: "\<forall>ch \<in> set (children s'). child_inv os segs np ch"
    unfolding s' by simp
  show ?thesis
    unfolding parent_inv_def using c1 c2 c3 c4 c5 c6 c7 c8 by blast
qed

lemma spawn_iter_Some:
  assumes "i < N" and "spawn_iter os segs np N i s = (Some r, s')"
  shows "r = 1"
    and "(i + 1 < N \<and> \<not> sys_ok os Parent (Pipe i) \<and> trace s' = trace s @ [Pipe i]
            \<and> children s' = children s)
       \<or> ((i + 1 < N \<longrightarrow> sys_ok os Parent (Pipe i))
            \<and> (\<exists>cl. trace s' = trace s @ fork_calls N i @ cl \<and> cl \<noteq> []
                  \<and> (\<forall>c \<in> set cl. is_close c \<and> (\<not> sys_ok os Parent c \<longrightarrow> last cl = c)))
            \<and> (\<not> sys_ok os Parent (Fork i) \<longrightarrow> children s' = children s))"
proof -
  have last: "(int i = int N - 1) \<longleftrightarrow> \<not> i + 1 < N"
    using assms(1) by linarith
  show "r = 1"
    using assms(2) unfolding spawn_iter_def Let_def last
    by (auto split: if_splits)
  show "(i + 1 < N \<and> \<not> sys_ok os Parent (Pipe i) \<and> trace s' = trace s @ [Pipe i]
            \<and> children s' = children s)
       \<or> ((i + 1 < N \<longrightarrow> sys_ok os Parent (Pipe i))
            \<and> (\<exists>cl. trace s' = trace s @ fork_calls N i @ cl \<and> cl \<noteq> []
                  \<and> (\<forall>c \<in> set cl. is_close c \<and> (\<not> sys_ok os Parent c \<longrightarrow> last cl = c)))
            \<and> (\<not> sys_ok os Parent (Fork i) \<longrightarrow> children s' = children s))"
    using assms(2) unfolding spawn_iter_def Let_def last
    by (auto simp: emit_def store_pipe_def spawn_child_def fork_calls_def split_beta
          split: if_splits)
qed


lemma spawn_loop_cases:
  assumes "parent_inv os segs np i s" and "N = Suc np" and "i \<le> N"
    and "spawn_loop os segs np N i s = (res, s')"
  shows "(res = None \<and> parent_inv os segs np N s')
       \<or> (res = Some 1 \<and> (\<exists>j sj. j \<le> np \<and> parent_inv os segs np j sj
                               \<and> spawn_iter os segs np N j sj = (Some 1, s')))"
  using assms
proof (induction os segs np N i s arbitrary: res s' rule: spawn_loop.induct)
  case (1 os segs np N i s)
  show ?case
  proof (cases "i < N")
    case False
    then have "i = N" using "1.prems"(3) by simp
    moreover have "spawn_loop os segs np N i s = (None, s)"
      using False by (subst spawn_loop.simps) simp
    ultimately show ?thesis using "1.prems" by simp
  next
    case True
    obtain r1 s1 where it: "spawn_iter os segs np N i s = (r1, s1)"
      by (cases "spawn_iter os segs np N i s") blast
    show ?thesis
    proof (cases r1)
      case (Some r)
      have "spawn_loop os segs np N i s = (Some r, s1)"
        using True it Some by (subst spawn_loop.simps) simp
      then have eq: "res = Some r" "s' = s1" using "1.prems"(4) by simp_all
      have "r = 1" using spawn_iter_Some(1) [OF True] it Some by blast
      moreover have "i \<le> np" using True "1.prems"(2) by simp
      ultimately show ?thesis using eq it Some "1.prems"(1) by blast
    next
      case None
      have lp: "spawn_loop os segs np N i s = spawn_loop os segs np N (i + 1) s1"
        using True it None by (subst spawn_loop.simps) simp
      have ile: "i \<le> np" using True "1.prems"(2) by simp
      have "parent_inv os segs np (Suc i) s1"
        using parent_inv_step [OF "1.prems"(1) ile] it None "1.prems"(2) by simp
      then have inv': "parent_inv os segs np (i + 1) s1" by simp
      have "i + 1 \<le> N" using True by simp
      from "1.IH" [OF True it [symmetric] None inv' "1.prems"(2) this]
      show ?thesis using lp "1.prems"(4) by simp
    qed
  qed
qed

lemma wait_loop_shape:
  "i \<le> N \<Longrightarrow>
   \<exists>k. i \<le> k \<and> k \<le> N
     \<and> snd (wait_loop os N i s) = s\<lparr>trace := trace s @ map Wait [i ..< k]\<rparr>
     \<and> (fst (wait_loop os N i s) = None \<longrightarrow> k = N)
     \<and> (fst (wait_loop os N i s) = None \<or> fst (wait_loop os N i s) = Some 1)
     \<and> ((\<forall>j < N. sys_ok os Parent (Wait j)) \<longrightarrow> fst (wait_loop os N i s) = None)"
proof (induction os N i s rule: wait_loop.induct)
  case (1 os N i s)
  let ?P = "\<lambda>k. i \<le> k \<and> k \<le> N
     \<and> snd (wait_loop os N i s) = s\<lparr>trace := trace s @ map Wait [i ..< k]\<rparr>
     \<and> (fst (wait_loop os N i s) = None \<longrightarrow> k = N)
     \<and> (fst (wait_loop os N i s) = None \<or> fst (wait_loop os N i s) = Some 1)
     \<and> ((\<forall>j < N. sys_ok os Parent (Wait j)) \<longrightarrow> fst (wait_loop os N i s) = None)"
  show ?case
  proof (cases "i < N")
    case False
    then have "wait_loop os N i s = (None, s)"
      by (subst wait_loop.simps) simp
    moreover have "i = N" using False "1.prems" by simp
    ultimately have "?P i" by simp
    then show ?thesis by (rule exI)
  next
    case True
    show ?thesis
    proof (cases "sys_ok os Parent (Wait i)")
      case False
      have "wait_loop os N i s = (Some 1, emit (Wait i) s)"
        using True False by (subst wait_loop.simps) simp
      then have "?P (Suc i)"
        using True False by (auto simp: emit_def)
      then show ?thesis by (rule exI)
    next
      case ok: True
      let ?s = "emit (Wait i) s"
      have step: "wait_loop os N i s = wait_loop os N (i + 1) ?s"
        using True ok by (subst wait_loop.simps) simp
      let ?Q = "\<lambda>k. i + 1 \<le> k \<and> k \<le> N
         \<and> snd (wait_loop os N (i + 1) ?s) = ?s\<lparr>trace := trace ?s @ map Wait [i + 1 ..< k]\<rparr>
         \<and> (fst (wait_loop os N (i + 1) ?s) = None \<longrightarrow> k = N)
         \<and> (fst (wait_loop os N (i + 1) ?s) = None \<or> fst (wait_loop os N (i + 1) ?s) = Some 1)
         \<and> ((\<forall>j < N. sys_ok os Parent (Wait j)) \<longrightarrow> fst (wait_loop os N (i + 1) ?s) = None)"
      have "\<exists>k. ?Q k"
        by (rule "1.IH") (use True ok in simp_all)
      then obtain k where kk: "?Q k" ..
      note k = kk [THEN conjunct1] kk [THEN conjunct2, THEN conjunct1]
        kk [THEN conjunct2, THEN conjunct2, THEN conjunct1]
        kk [THEN conjunct2, THEN conjunct2, THEN conjunct2, THEN conjunct1]
        kk [THEN conjunct2, THEN conjunct2, THEN conjunct2, THEN conjunct2, THEN conjunct1]
        kk [THEN conjunct2, THEN conjunct2, THEN conjunct2, THEN conjunct2, THEN conjunct2]
      have "[i ..< k] = i # [i + 1 ..< k]"
        using k(1) by (simp add: upt_conv_Cons)
      then have "snd (wait_loop os N i s) = s\<lparr>trace := trace s @ map Wait [i ..< k]\<rparr>"
        unfolding step k(3) by (simp add: emit_def)
      moreover have "i \<le> k" using k(1) by simp
      ultimately have "?P k"
        using k(2,4,5,6) unfolding step by simp
      then show ?thesis by (rule exI)
    qed
  qed
qed

section \<open>The shape of a run of run_pipelined_commands\<close>

lemma spawn_iter_all_ok:
  assumes "i < N" and "\<forall>c. sys_ok os Parent c"
  shows "fst (spawn_iter os segs np N i s) = None"
proof -
  have last: "(int i = int N - 1) \<longleftrightarrow> \<not> i + 1 < N"
    using assms(1) by linarith
  show ?thesis
    using assms(2) unfolding spawn_iter_def Let_def last by simp
qed

lemma parent_inv_init:
  "parent_inv os segs np 0 \<lparr>pipe_fds = replicate (2 * np) None, trace = [], children = []\<rparr>"
  by (simp add: parent_inv_def wired_def open_fds_def closes_of_def n_waits_def)

lemma run_cases:
  assumes m: "malloc_ok os" and run: "run_pipelined_commands os tokens = (r, s)"
    and np: "np = strvec_num_occurrences tokens ''|''"
  shows "\<exists>segs. segment tokens = Some segs \<and> length segs = Suc np \<and>
     ((\<exists>s2 k. parent_inv os segs np (Suc np) s2 \<and> k \<le> Suc np
          \<and> s = s2\<lparr>trace := trace s2 @ map Wait [0 ..< k]\<rparr>
          \<and> (r = 0 \<and> k = Suc np \<or> r = 1)
          \<and> ((\<forall>j < Suc np. sys_ok os Parent (Wait j)) \<longrightarrow> r = 0))
      \<or> (r = 1 \<and> (\<exists>j sj. j \<le> np \<and> parent_inv os segs np j sj
                     \<and> spawn_iter os segs np (Suc np) j sj = (Some 1, s))))"
proof -
  from segment_correct [of tokens] obtain segs where
    segs: "segment tokens = Some segs" "length segs = Suc np"
    by (auto simp: np strvec_num_occurrences_def)
  let ?s1 = "\<lparr>pipe_fds = replicate (2 * np) None, trace = [], children = []\<rparr>"
  obtain res s2 where sp: "spawn_loop os segs np (Suc np) 0 ?s1 = (res, s2)"
    by (cases "spawn_loop os segs np (Suc np) 0 ?s1") blast
  from spawn_loop_cases [OF parent_inv_init refl _ sp]
  have cases: "(res = None \<and> parent_inv os segs np (Suc np) s2)
       \<or> (res = Some 1 \<and> (\<exists>j sj. j \<le> np \<and> parent_inv os segs np j sj
                               \<and> spawn_iter os segs np (Suc np) j sj = (Some 1, s2)))"
    by simp
  show ?thesis
  proof (cases res)
    case (Some r')
    then have "run_pipelined_commands os tokens = (r', s2)"
      using m segs sp by (simp add: run_pipelined_commands_def np [symmetric])
    then have "r = r'" "s = s2" using run by simp_all
    then show ?thesis using cases Some segs by auto
  next
    case None
    then have inv: "parent_inv os segs np (Suc np) s2" using cases by simp
    have "0 \<le> Suc np" by simp
    from wait_loop_shape [OF this, of os s2] obtain k where kk:
      "0 \<le> k \<and> k \<le> Suc np
       \<and> snd (wait_loop os (Suc np) 0 s2) = s2\<lparr>trace := trace s2 @ map Wait [0 ..< k]\<rparr>
       \<and> (fst (wait_loop os (Suc np) 0 s2) = None \<longrightarrow> k = Suc np)
       \<and> (fst (wait_loop os (Suc np) 0 s2) = None \<or> fst (wait_loop os (Suc np) 0 s2) = Some 1)
       \<and> ((\<forall>j < Suc np. sys_ok os Parent (Wait j)) \<longrightarrow> fst (wait_loop os (Suc np) 0 s2) = None)" ..
    note k = kk [THEN conjunct2, THEN conjunct1]
      kk [THEN conjunct2, THEN conjunct2, THEN conjunct1]
      kk [THEN conjunct2, THEN conjunct2, THEN conjunct2, THEN conjunct1]
      kk [THEN conjunct2, THEN conjunct2, THEN conjunct2, THEN conjunct2, THEN conjunct1]
      kk [THEN conjunct2, THEN conjunct2, THEN conjunct2, THEN conjunct2, THEN conjunct2]
    have "run_pipelined_commands os tokens
            = (case fst (wait_loop os (Suc np) 0 s2) of Some r' \<Rightarrow> r' | None \<Rightarrow> 0,
               snd (wait_loop os (Suc np) 0 s2))"
      using m segs sp None
      by (simp add: run_pipelined_commands_def np [symmetric] split: prod.splits option.splits)
    then have rs: "r = (case fst (wait_loop os (Suc np) 0 s2) of Some r' \<Rightarrow> r' | None \<Rightarrow> 0)"
      "s = s2\<lparr>trace := trace s2 @ map Wait [0 ..< k]\<rparr>"
      using run k(2) by simp_all
    have "r = 0 \<and> k = Suc np \<or> r = 1"
      using rs(1) k(3,4) by auto
    moreover have "(\<forall>j < Suc np. sys_ok os Parent (Wait j)) \<longrightarrow> r = 0"
      using rs(1) k(5) by auto
    ultimately show ?thesis
      using inv k(1) rs(2) segs by blast
  qed
qed

lemma run_obs:
  "run_pipelined_commands os tokens = (return_value os tokens,
      snd (run_pipelined_commands os tokens))"
  "trace (snd (run_pipelined_commands os tokens)) = parent_calls os tokens"
  "children (snd (run_pipelined_commands os tokens)) = spawned os tokens"
  by (simp_all add: return_value_def parent_calls_def spawned_def)

lemma is_close_not_wait: "is_close c \<Longrightarrow> \<not> is_wait c"
  by (cases c) simp_all

lemma n_waits_closes: "\<forall>c \<in> set cl. is_close c \<Longrightarrow> n_waits cl = 0"
  by (induction cl) (auto simp: n_waits_def dest: is_close_not_wait)

lemma n_waits_map_Wait: "n_waits (map Wait xs) = length xs"
  by (induction xs) (simp_all add: n_waits_def)

lemma length_cidx: "map cidx chs = [0 ..< n] \<Longrightarrow> length chs = n"
proof -
  assume "map cidx chs = [0 ..< n]"
  then have "length (map cidx chs) = length [0 ..< n]" by simp
  then show ?thesis by simp
qed

text \<open>The part of a run that every statement about a successful return needs.\<close>

lemma run_success:
  assumes m: "malloc_ok os" and np: "np = strvec_num_occurrences tokens ''|''"
    and r: "return_value os tokens = 0"
  shows "\<exists>segs s2. segment tokens = Some segs \<and> length segs = Suc np
           \<and> parent_inv os segs np (Suc np) s2
           \<and> parent_calls os tokens = trace s2 @ map Wait [0 ..< Suc np]
           \<and> spawned os tokens = children s2"
proof -
  from run_cases [OF m run_obs(1) np] obtain segs where segs:
    "segment tokens = Some segs" "length segs = Suc np"
    and cs: "(\<exists>s2 k. parent_inv os segs np (Suc np) s2 \<and> k \<le> Suc np
          \<and> snd (run_pipelined_commands os tokens) = s2\<lparr>trace := trace s2 @ map Wait [0 ..< k]\<rparr>
          \<and> (return_value os tokens = 0 \<and> k = Suc np \<or> return_value os tokens = 1)
          \<and> ((\<forall>j < Suc np. sys_ok os Parent (Wait j)) \<longrightarrow> return_value os tokens = 0))
      \<or> (return_value os tokens = 1 \<and> (\<exists>j sj. j \<le> np \<and> parent_inv os segs np j sj
             \<and> spawn_iter os segs np (Suc np) j sj = (Some 1, snd (run_pipelined_commands os tokens))))"
    by blast
  from cs r obtain s2 k where a: "parent_inv os segs np (Suc np) s2"
    "snd (run_pipelined_commands os tokens) = s2\<lparr>trace := trace s2 @ map Wait [0 ..< k]\<rparr>"
    "k = Suc np"
    by auto
  have "parent_calls os tokens = trace s2 @ map Wait [0 ..< Suc np]"
    "spawned os tokens = children s2"
    using a(2,3) by (simp_all add: parent_calls_def spawned_def)
  with segs a(1) show ?thesis by blast
qed


text \<open>The part that every statement about a failed call of the spawn loop needs.\<close>

lemma run_abort:
  assumes m: "malloc_ok os" and np: "np = strvec_num_occurrences tokens ''|''"
    and c: "c \<in> set (parent_calls os tokens)" "\<not> sys_ok os Parent c" "\<not> is_wait c"
  shows "return_value os tokens = 1 \<and>
         (\<exists>segs j sj. j \<le> np \<and> parent_inv os segs np j sj
            \<and> spawn_iter os segs np (Suc np) j sj = (Some 1, snd (run_pipelined_commands os tokens))
            \<and> c \<notin> set (trace sj))"
proof -
  let ?s = "snd (run_pipelined_commands os tokens)"
  from run_cases [OF m run_obs(1) np] obtain segs where
    cs: "(\<exists>s2 k. parent_inv os segs np (Suc np) s2 \<and> k \<le> Suc np
          \<and> ?s = s2\<lparr>trace := trace s2 @ map Wait [0 ..< k]\<rparr>
          \<and> (return_value os tokens = 0 \<and> k = Suc np \<or> return_value os tokens = 1)
          \<and> ((\<forall>j < Suc np. sys_ok os Parent (Wait j)) \<longrightarrow> return_value os tokens = 0))
      \<or> (return_value os tokens = 1 \<and> (\<exists>j sj. j \<le> np \<and> parent_inv os segs np j sj
             \<and> spawn_iter os segs np (Suc np) j sj = (Some 1, ?s)))"
    by blast
  have not_a: False
    if a: "parent_inv os segs np (Suc np) s2" "?s = s2\<lparr>trace := trace s2 @ map Wait [0 ..< k]\<rparr>"
    for s2 k
  proof -
    have "parent_calls os tokens = trace s2 @ map Wait [0 ..< k]"
      using a(2) by (simp add: parent_calls_def)
    moreover have "\<forall>d \<in> set (trace s2). sys_ok os Parent d"
      using a(1) unfolding parent_inv_def by blast
    ultimately have "c \<in> set (map Wait [0 ..< k])"
      using c(1,2) by auto
    then show False using c(3) by auto
  qed
  from cs not_a obtain j sj where b: "return_value os tokens = 1" "j \<le> np"
    "parent_inv os segs np j sj" "spawn_iter os segs np (Suc np) j sj = (Some 1, ?s)"
    by blast
  have "\<forall>d \<in> set (trace sj). sys_ok os Parent d"
    using b(3) unfolding parent_inv_def by blast
  then have "c \<notin> set (trace sj)" using c(2) by blast
  with b show ?thesis by blast
qed

section \<open>Failures of the parent's calls\<close>

text \<open>
  Claim C9, as amended. A failure of a \<^verbatim>\<open>close\<close> call of the parent is not a warning: the
  function returns 1 right after the failed call, so that nothing is spawned after it and
  no \<^verbatim>\<open>wait\<close> call is made.
\<close>

theorem parent_close_failure_aborts:
  assumes "malloc_ok os"
    and "Close k d \<in> set (parent_calls os tokens)"
    and "\<not> sys_ok os Parent (Close k d)"
  shows "return_value os tokens = 1
       \<and> last (parent_calls os tokens) = Close k d
       \<and> n_waits (parent_calls os tokens) = 0"
proof -
  define np where "np = strvec_num_occurrences tokens ''|''"
  let ?s = "snd (run_pipelined_commands os tokens)"
  from run_abort [OF assms(1) np_def assms(2,3)] obtain segs j sj where
    b: "return_value os tokens = 1" "j \<le> np" "parent_inv os segs np j sj"
       "spawn_iter os segs np (Suc np) j sj = (Some 1, ?s)" "Close k d \<notin> set (trace sj)"
    by auto
  have jlt: "j < Suc np" using b(2) by simp
  have nw: "n_waits (trace sj) = 0"
    using b(3) unfolding parent_inv_def by blast
  from spawn_iter_Some(2) [OF jlt b(4)]
  consider (pipe) "trace ?s = trace sj @ [Pipe j]"
    | (close) cl where "trace ?s = trace sj @ fork_calls (Suc np) j @ cl" "cl \<noteq> []"
        "\<forall>c \<in> set cl. is_close c \<and> (\<not> sys_ok os Parent c \<longrightarrow> last cl = c)"
    by blast
  then have "last (trace ?s) = Close k d \<and> n_waits (trace ?s) = 0"
  proof cases
    case pipe
    then have "Close k d \<in> set (trace sj @ [Pipe j])"
      using assms(2) by (simp add: parent_calls_def)
    then show ?thesis using b(5) by simp
  next
    case close
    have "Close k d \<in> set (trace sj @ fork_calls (Suc np) j @ cl)"
      using assms(2) close(1) by (simp add: parent_calls_def)
    then have "Close k d \<in> set cl"
      using b(5) by (auto simp: fork_calls_def)
    then have "last cl = Close k d"
      using close(3) assms(3) by blast
    then have "last (trace ?s) = Close k d"
      using close(1,2) by simp
    moreover have "n_waits cl = 0"
      using close(3) by (intro n_waits_closes) blast
    then have "n_waits (trace ?s) = 0"
      using nw close(1) by (simp add: n_waits_append fork_calls_simps)
    ultimately show ?thesis by simp
  qed
  then show ?thesis using b(1) by (simp add: parent_calls_def)
qed


theorem parent_close_failure_aborts_witness:
  "return_value (fails_at Parent (Close 1 (Some (0, WrEnd)))) [''a'', ''|'', ''b''] = 1
   \<and> last (parent_calls (fails_at Parent (Close 1 (Some (0, WrEnd)))) [''a'', ''|'', ''b''])
       = Close 1 (Some (0, WrEnd))
   \<and> n_waits (parent_calls (fails_at Parent (Close 1 (Some (0, WrEnd)))) [''a'', ''|'', ''b'']) = 0"
proof -
  have h1: "malloc_ok (fails_at Parent (Close 1 (Some (0, WrEnd))))"
    by code_simp
  have h2: "Close 1 (Some (0, WrEnd))
      \<in> set (parent_calls (fails_at Parent (Close 1 (Some (0, WrEnd)))) [''a'', ''|'', ''b''])"
    by code_simp
  have h3: "\<not> sys_ok (fails_at Parent (Close 1 (Some (0, WrEnd)))) Parent (Close 1 (Some (0, WrEnd)))"
    by code_simp
  show ?thesis
    by (rule parent_close_failure_aborts [OF h1 h2 h3])
qed

text \<open>
  Claim C9 as stated fails for two commands when the parent cannot close the write end of
  the only channel: the second command is never spawned and nothing is reaped.
\<close>

theorem parent_close_failure_counterexample:
  "return_value (fails_at Parent (Close 1 (Some (0, WrEnd)))) [''a'', ''|'', ''b''] = 1
   \<and> parent_calls (fails_at Parent (Close 1 (Some (0, WrEnd)))) [''a'', ''|'', ''b'']
       = [Pipe 0, Fork 0, Close 1 (Some (0, WrEnd))]
   \<and> map cidx (spawned (fails_at Parent (Close 1 (Some (0, WrEnd)))) [''a'', ''|'', ''b'']) = [0]
   \<and> Fork 1 \<notin> set (parent_calls (fails_at Parent (Close 1 (Some (0, WrEnd)))) [''a'', ''|'', ''b''])
   \<and> n_waits (parent_calls (fails_at Parent (Close 1 (Some (0, WrEnd)))) [''a'', ''|'', ''b'']) = 0"
  by code_simp

text \<open>
  Claim C7, as amended. Channels are allocated one per iteration, between the spawns.
  When the \<^verbatim>\<open>pipe\<close> call of iteration \<open>i\<close> fails, the function returns 1 at once: \<open>i\<close>
  processes have been spawned and none is waited for; the parent has closed the write
  ends of all channels allocated so far and the read ends of all but the last of them,
  each once.
\<close>

theorem pipe_failure_returns_at_once:
  assumes "malloc_ok os"
    and "Pipe i \<in> set (parent_calls os tokens)"
    and "\<not> sys_ok os Parent (Pipe i)"
  shows "return_value os tokens = 1
       \<and> last (parent_calls os tokens) = Pipe i
       \<and> length (spawned os tokens) = i
       \<and> n_waits (parent_calls os tokens) = 0
       \<and> (\<forall>c < i. closes_of (c, WrEnd) (parent_calls os tokens) = 1)
       \<and> (\<forall>c. c + 1 < i \<longrightarrow> closes_of (c, RdEnd) (parent_calls os tokens) = 1)"
proof -
  define np where "np = strvec_num_occurrences tokens ''|''"
  let ?s = "snd (run_pipelined_commands os tokens)"
  have nw: "\<not> is_wait (Pipe i)" by simp
  from run_abort [OF assms(1) np_def assms(2,3) nw] obtain segs j sj where
    b: "return_value os tokens = 1" "j \<le> np" "parent_inv os segs np j sj"
       "spawn_iter os segs np (Suc np) j sj = (Some 1, ?s)" "Pipe i \<notin> set (trace sj)"
    by auto
  have jlt: "j < Suc np" using b(2) by simp
  have inv: "n_waits (trace sj) = 0" "map cidx (children sj) = [0 ..< j]"
    "\<forall>c. closes_of (c, WrEnd) (trace sj) = (if c < j \<and> c < np then 1 else 0)"
    "\<forall>c. closes_of (c, RdEnd) (trace sj) = (if c + 1 < j then 1 else 0)"
    using b(3) unfolding parent_inv_def by blast+
  have len: "length (children sj) = j"
    by (rule length_cidx [OF inv(2)])
  from spawn_iter_Some(2) [OF jlt b(4)]
  consider (pipe) "j + 1 < Suc np" "trace ?s = trace sj @ [Pipe j]" "children ?s = children sj"
    | (close) cl where "j + 1 < Suc np \<longrightarrow> sys_ok os Parent (Pipe j)"
        "trace ?s = trace sj @ fork_calls (Suc np) j @ cl"
        "\<forall>c \<in> set cl. is_close c \<and> (\<not> sys_ok os Parent c \<longrightarrow> last cl = c)"
    by blast
  then have "i = j \<and> j < np \<and> trace ?s = trace sj @ [Pipe j] \<and> children ?s = children sj"
  proof cases
    case pipe
    then have "Pipe i \<in> set (trace sj @ [Pipe j])"
      using assms(2) by (simp add: parent_calls_def)
    then have "i = j" using b(5) by simp
    then show ?thesis using pipe by simp
  next
    case close
    have "Pipe i \<in> set (trace sj @ fork_calls (Suc np) j @ cl)"
      using assms(2) close(2) by (simp add: parent_calls_def)
    then have "Pipe i \<in> set (fork_calls (Suc np) j) \<or> Pipe i \<in> set cl"
      using b(5) by auto
    moreover have "Pipe i \<notin> set cl"
      using close(3) by auto
    ultimately have "i = j \<and> j + 1 < Suc np"
      by (auto simp: fork_calls_def split: if_splits)
    then show ?thesis using close(1) assms(3) by simp
  qed
  then have e: "i = j" "j < np" "parent_calls os tokens = trace sj @ [Pipe j]"
    "spawned os tokens = children sj"
    by (simp_all add: parent_calls_def spawned_def)
  have cl: "closes_of x (parent_calls os tokens) = closes_of x (trace sj)" for x
    unfolding e(3) by (simp add: closes_of_def)
  have "n_waits (parent_calls os tokens) = 0"
    unfolding e(3) using inv(1) by (simp add: n_waits_def)
  moreover have "\<forall>c < i. closes_of (c, WrEnd) (parent_calls os tokens) = 1"
    unfolding cl using inv(3) e(1,2) by simp
  moreover have "\<forall>c. c + 1 < i \<longrightarrow> closes_of (c, RdEnd) (parent_calls os tokens) = 1"
    unfolding cl using inv(4) e(1) by simp
  moreover have "last (parent_calls os tokens) = Pipe i"
    unfolding e(3) using e(1) by simp
  moreover have "length (spawned os tokens) = i"
    using e(1,4) len by simp
  ultimately show ?thesis using b(1) by simp
qed

theorem pipe_failure_returns_at_once_witness:
  "return_value (fails_at Parent (Pipe 1)) [''a'', ''|'', ''b'', ''|'', ''c''] = 1
   \<and> last (parent_calls (fails_at Parent (Pipe 1)) [''a'', ''|'', ''b'', ''|'', ''c'']) = Pipe 1
   \<and> length (spawned (fails_at Parent (Pipe 1)) [''a'', ''|'', ''b'', ''|'', ''c'']) = 1
   \<and> n_waits (parent_calls (fails_at Parent (Pipe 1)) [''a'', ''|'', ''b'', ''|'', ''c'']) = 0
   \<and> closes_of (0, WrEnd) (parent_calls (fails_at Parent (Pipe 1)) [''a'', ''|'', ''b'', ''|'', ''c'']) = 1"
proof -
  have h1: "malloc_ok (fails_at Parent (Pipe 1))"
    by code_simp
  have h2: "Pipe 1 \<in> set (parent_calls (fails_at Parent (Pipe 1)) [''a'', ''|'', ''b'', ''|'', ''c''])"
    by code_simp
  have h3: "\<not> sys_ok (fails_at Parent (Pipe 1)) Parent (Pipe 1)"
    by code_simp
  show ?thesis
    using pipe_failure_returns_at_once [OF h1 h2 h3] by simp
qed

text \<open>
  Claim C7 as stated fails for three commands when the second \<^verbatim>\<open>pipe\<close> call fails: one
  process has been spawned, and the read end of the first channel has not been closed.
\<close>

theorem pipe_failure_counterexample:
  "return_value (fails_at Parent (Pipe 1)) [''a'', ''|'', ''b'', ''|'', ''c''] = 1
   \<and> parent_calls (fails_at Parent (Pipe 1)) [''a'', ''|'', ''b'', ''|'', ''c'']
       = [Pipe 0, Fork 0, Close 1 (Some (0, WrEnd)), Pipe 1]
   \<and> map cidx (spawned (fails_at Parent (Pipe 1)) [''a'', ''|'', ''b'', ''|'', ''c'']) = [0]
   \<and> closes_of (0, RdEnd) (parent_calls (fails_at Parent (Pipe 1)) [''a'', ''|'', ''b'', ''|'', ''c'']) = 0
   \<and> length (spawned (fails_at Parent (Pipe 1)) [''a'', ''|'', ''b'', ''|'', ''c'']) \<noteq> 0"
  by code_simp

lemma success_counts:
  assumes "malloc_ok os" and "return_value os tokens = 0"
  shows "n_waits (parent_calls os tokens) = strvec_num_occurrences tokens ''|'' + 1"
    and "length (spawned os tokens) = strvec_num_occurrences tokens ''|'' + 1"
proof -
  define np where "np = strvec_num_occurrences tokens ''|''"
  from run_success [OF assms(1) np_def assms(2)] obtain segs s2 where
    a: "parent_inv os segs np (Suc np) s2"
       "parent_calls os tokens = trace s2 @ map Wait [0 ..< Suc np]"
       "spawned os tokens = children s2"
    by blast
  have inv: "n_waits (trace s2) = 0" "map cidx (children s2) = [0 ..< Suc np]"
    using a(1) unfolding parent_inv_def by blast+
  show "n_waits (parent_calls os tokens) = strvec_num_occurrences tokens ''|'' + 1"
    unfolding a(2) n_waits_append n_waits_map_Wait using inv(1) by (simp add: np_def)
  show "length (spawned os tokens) = strvec_num_occurrences tokens ''|'' + 1"
    unfolding a(3) using length_cidx [OF inv(2)] by (simp add: np_def)
qed

text \<open>
  Claim C4, as amended. When the function returns success, the number of \<^verbatim>\<open>wait\<close> calls
  equals the number of processes spawned, one per command. When the \<^verbatim>\<open>fork\<close> call of
  iteration \<open>i\<close> fails, the function returns 1 with the \<open>i\<close> processes spawned before and
  no more, and it makes no \<^verbatim>\<open>wait\<close> call: those processes are not reaped.
\<close>

theorem fork_failure_returns_without_wait:
  assumes "malloc_ok os"
  shows "(return_value os tokens = 0 \<longrightarrow>
            n_waits (parent_calls os tokens) = length (spawned os tokens)
          \<and> length (spawned os tokens) = strvec_num_occurrences tokens ''|'' + 1)
       \<and> (\<forall>i. Fork i \<in> set (parent_calls os tokens) \<and> \<not> sys_ok os Parent (Fork i) \<longrightarrow>
            return_value os tokens = 1
          \<and> length (spawned os tokens) = i
          \<and> n_waits (parent_calls os tokens) = 0)"
proof (intro conjI impI allI)
  assume r: "return_value os tokens = 0"
  show "n_waits (parent_calls os tokens) = length (spawned os tokens)"
    using success_counts [OF assms r] by simp
  show "length (spawned os tokens) = strvec_num_occurrences tokens ''|'' + 1"
    by (rule success_counts(2) [OF assms r])
next
  fix i
  define np where "np = strvec_num_occurrences tokens ''|''"
  let ?s = "snd (run_pipelined_commands os tokens)"
  assume f: "Fork i \<in> set (parent_calls os tokens) \<and> \<not> sys_ok os Parent (Fork i)"
  have nw: "\<not> is_wait (Fork i)" by simp
  from run_abort [OF assms np_def f [THEN conjunct1] f [THEN conjunct2] nw] obtain segs j sj where
    b: "return_value os tokens = 1" "j \<le> np" "parent_inv os segs np j sj"
       "spawn_iter os segs np (Suc np) j sj = (Some 1, ?s)" "Fork i \<notin> set (trace sj)"
    by auto
  have jlt: "j < Suc np" using b(2) by simp
  have inv: "n_waits (trace sj) = 0" "map cidx (children sj) = [0 ..< j]"
    using b(3) unfolding parent_inv_def by blast+
  from spawn_iter_Some(2) [OF jlt b(4)]
  consider (pipe) "trace ?s = trace sj @ [Pipe j]"
    | (close) cl where "trace ?s = trace sj @ fork_calls (Suc np) j @ cl"
        "\<forall>c \<in> set cl. is_close c \<and> (\<not> sys_ok os Parent c \<longrightarrow> last cl = c)"
        "\<not> sys_ok os Parent (Fork j) \<longrightarrow> children ?s = children sj"
    by blast
  then have "length (children ?s) = i \<and> n_waits (trace ?s) = 0"
  proof cases
    case pipe
    then have "Fork i \<in> set (trace sj @ [Pipe j])"
      using f by (simp add: parent_calls_def)
    then show ?thesis using b(5) by simp
  next
    case close
    have "Fork i \<in> set (trace sj @ fork_calls (Suc np) j @ cl)"
      using f close(1) by (simp add: parent_calls_def)
    then have "Fork i \<in> set (fork_calls (Suc np) j) \<or> Fork i \<in> set cl"
      using b(5) by auto
    moreover have "Fork i \<notin> set cl"
      using close(2) by auto
    ultimately have "i = j"
      by (auto simp: fork_calls_def split: if_splits)
    then have "children ?s = children sj"
      using close(3) f by simp
    then have "length (children ?s) = i"
      using length_cidx [OF inv(2)] \<open>i = j\<close> by simp
    moreover have "n_waits cl = 0"
      using close(2) by (intro n_waits_closes) blast
    then have "n_waits (trace ?s) = 0"
      using inv(1) close(1) by (simp add: n_waits_append fork_calls_simps)
    ultimately show ?thesis by simp
  qed
  then show "return_value os tokens = 1" "length (spawned os tokens) = i"
    "n_waits (parent_calls os tokens) = 0"
    using b(1) by (simp_all add: parent_calls_def spawned_def)
qed

theorem fork_failure_returns_without_wait_witness:
  "return_value (fails_at Parent (Fork 1)) [''a'', ''|'', ''b''] = 1
   \<and> length (spawned (fails_at Parent (Fork 1)) [''a'', ''|'', ''b'']) = 1
   \<and> n_waits (parent_calls (fails_at Parent (Fork 1)) [''a'', ''|'', ''b'']) = 0
   \<and> return_value os_ok [''a'', ''|'', ''b''] = 0
   \<and> n_waits (parent_calls os_ok [''a'', ''|'', ''b'']) = 2
   \<and> length (spawned os_ok [''a'', ''|'', ''b'']) = 2"
proof -
  have h1: "malloc_ok (fails_at Parent (Fork 1))"
    by code_simp
  have h2: "Fork 1 \<in> set (parent_calls (fails_at Parent (Fork 1)) [''a'', ''|'', ''b''])"
    by code_simp
  have h3: "\<not> sys_ok (fails_at Parent (Fork 1)) Parent (Fork 1)"
    by code_simp
  have g1: "malloc_ok os_ok"
    by code_simp
  have g2: "return_value os_ok [''a'', ''|'', ''b''] = 0"
    by code_simp
  have g3: "strvec_num_occurrences [''a'', ''|'', ''b''] ''|'' + 1 = 2"
    by code_simp
  show ?thesis
    using fork_failure_returns_without_wait [OF h1, of "[''a'', ''|'', ''b'']"]
      fork_failure_returns_without_wait [OF g1, of "[''a'', ''|'', ''b'']"] h2 h3 g2 g3
    by simp
qed

text \<open>
  Claim C4 as stated fails for two commands when the second \<^verbatim>\<open>fork\<close> fails: one process
  has been spawned and no \<^verbatim>\<open>wait\<close> call is made.
\<close>

theorem fork_failure_counterexample:
  "parent_calls (fails_at Parent (Fork 1)) [''a'', ''|'', ''b'']
       = [Pipe 0, Fork 0, Close 1 (Some (0, WrEnd)), Fork 1, Close 2 None, Close 3 None]
   \<and> map cidx (spawned (fails_at Parent (Fork 1)) [''a'', ''|'', ''b'']) = [0]
   \<and> n_waits (parent_calls (fails_at Parent (Fork 1)) [''a'', ''|'', ''b'']) = 0
   \<and> n_waits (parent_calls (fails_at Parent (Fork 1)) [''a'', ''|'', ''b''])
       \<noteq> length (spawned (fails_at Parent (Fork 1)) [''a'', ''|'', ''b''])"
  by code_simp

section \<open>Exit statuses\<close>

text \<open>
  Claim C5, as amended. When no call of the parent fails, the function waits once per
  command and returns 0, whatever the commands do and whatever status they exit with:
  a non-zero exit of a command is not reported.
\<close>

theorem exit_statuses_do_not_reach_the_result:
  assumes "malloc_ok os" and "\<forall>c. sys_ok os Parent c"
  shows "return_value os tokens = 0
       \<and> n_waits (parent_calls os tokens) = strvec_num_occurrences tokens ''|'' + 1
       \<and> length (spawned os tokens) = strvec_num_occurrences tokens ''|'' + 1"
proof -
  define np where "np = strvec_num_occurrences tokens ''|''"
  let ?s = "snd (run_pipelined_commands os tokens)"
  from run_cases [OF assms(1) run_obs(1) np_def] obtain segs where
    cs: "(\<exists>s2 k. parent_inv os segs np (Suc np) s2 \<and> k \<le> Suc np
          \<and> ?s = s2\<lparr>trace := trace s2 @ map Wait [0 ..< k]\<rparr>
          \<and> (return_value os tokens = 0 \<and> k = Suc np \<or> return_value os tokens = 1)
          \<and> ((\<forall>j < Suc np. sys_ok os Parent (Wait j)) \<longrightarrow> return_value os tokens = 0))
      \<or> (return_value os tokens = 1 \<and> (\<exists>j sj. j \<le> np \<and> parent_inv os segs np j sj
             \<and> spawn_iter os segs np (Suc np) j sj = (Some 1, ?s)))"
    by blast
  have not_b: False if b: "j \<le> np" "spawn_iter os segs np (Suc np) j sj = (Some 1, ?s)" for j sj
  proof -
    have "j < Suc np" using b(1) by simp
    from spawn_iter_all_ok [OF this assms(2), of segs np sj] show False
      using b(2) by simp
  qed
  have r: "return_value os tokens = 0"
    using cs not_b assms(2) by blast
  show ?thesis
    using r success_counts [OF assms(1) r] by simp
qed

theorem exit_statuses_do_not_reach_the_result_witness:
  "return_value (exits_with 0 1) [''false'', ''|'', ''true''] = 0
   \<and> n_waits (parent_calls (exits_with 0 1) [''false'', ''|'', ''true'']) = 2
   \<and> length (spawned (exits_with 0 1) [''false'', ''|'', ''true'']) = 2"
proof -
  have h1: "malloc_ok (exits_with 0 1)"
    by code_simp
  have h2: "\<forall>c. sys_ok (exits_with 0 1) Parent c"
    by (simp add: exits_with_def os_ok_def)
  have h3: "strvec_num_occurrences [''false'', ''|'', ''true''] ''|'' + 1 = 2"
    by code_simp
  show ?thesis
    using exit_statuses_do_not_reach_the_result [OF h1 h2, of "[''false'', ''|'', ''true'']"] h3
    by simp
qed

text \<open>
  Claim C5 as stated fails for \<^verbatim>\<open>false | true\<close>: the first process exits with status 1
  and the function returns 0.
\<close>

theorem exit_status_counterexample:
  "map status (spawned (exits_with 0 1) [''false'', ''|'', ''true'']) = [1, 0]
   \<and> return_value (exits_with 0 1) [''false'', ''|'', ''true''] = 0
   \<and> n_waits (parent_calls (exits_with 0 1) [''false'', ''|'', ''true'']) = 2"
  by code_simp

section \<open>The child branch\<close>

lemma child_branch_first:
  assumes w: "wired np (Suc 0) fds" and np: "1 \<le> np" and ok: "\<forall>c. sys_ok os (Child 0) c"
  shows "snd (child_branch os segs fds np (Suc np) 0) =
           [Close 0 (Some (0, RdEnd)), Dup2 1 (Some (0, WrEnd)) STDOUT_FILENO,
            Close 1 (Some (0, WrEnd)), RunCommand (if 0 < length segs then segs ! 0 else [])]"
proof -
  have a: "slot fds 0 = Some (0, RdEnd)"
    using wired_slot_rd [OF w, of 0] np by simp
  have b: "slot fds 1 = Some (0, WrEnd)"
    using wired_slot_wr [OF w, of 0] np by simp
  show ?thesis
    unfolding child_branch_def run_piped_command_def Let_def
    using ok a b by (simp split: run_result.splits)
qed

lemma child_branch_last:
  assumes w: "wired np (Suc np) fds" and np: "1 \<le> np" and ok: "\<forall>c. sys_ok os (Child np) c"
  shows "snd (child_branch os segs fds np (Suc np) np) =
           [Dup2 (2 * int np - 2) (Some (np - 1, RdEnd)) STDIN_FILENO,
            Close (2 * int np - 2) (Some (np - 1, RdEnd)),
            RunCommand (if np < length segs then segs ! np else [])]"
proof -
  have a: "slot fds (2 * int np - 2) = Some (np - 1, RdEnd)"
    using wired_slot_prev [OF w] np by simp
  have ne: "np \<noteq> 0" "2 * int np - 2 \<noteq> - 1" using np by presburger+
  show ?thesis
    unfolding child_branch_def run_piped_command_def Let_def
    using ok a ne by (simp split: run_result.splits)
qed

lemma child_branch_middle:
  assumes w: "wired np (Suc j) fds" and j: "0 < j" "j < np" and ok: "\<forall>c. sys_ok os (Child j) c"
  shows "snd (child_branch os segs fds np (Suc np) j) =
           [Close (2 * int j) (Some (j, RdEnd)),
            Dup2 (2 * int j - 2) (Some (j - 1, RdEnd)) STDIN_FILENO,
            Close (2 * int j - 2) (Some (j - 1, RdEnd)),
            Dup2 (2 * int j + 1) (Some (j, WrEnd)) STDOUT_FILENO,
            Close (2 * int j + 1) (Some (j, WrEnd)),
            RunCommand (if j < length segs then segs ! j else [])]"
proof -
  have a: "slot fds (2 * int j - 2) = Some (j - 1, RdEnd)"
    using wired_slot_prev [OF w] j by simp
  have b: "slot fds (2 * int j) = Some (j, RdEnd)"
    using wired_slot_rd [OF w, of j] j by simp
  have c: "slot fds (2 * int j + 1) = Some (j, WrEnd)"
    using wired_slot_wr [OF w, of j] j by simp
  have ne: "j \<noteq> 0" "int j \<noteq> int np" "2 * int j - 2 \<noteq> - 1" "2 * int j + 1 \<noteq> - 1"
    using j by presburger+
  show ?thesis
    unfolding child_branch_def run_piped_command_def Let_def
    using ok a b c ne by (simp split: run_result.splits)
qed


lemma child_branch_calls:
  assumes w: "wired np (Suc j) fds" and j: "j \<le> np" and np: "1 \<le> np"
    and ok: "\<forall>c. sys_ok os (Child j) c"
  shows "snd (child_branch os segs fds np (Suc np) j) =
           (if j = 0 then
              [Close 0 (Some (0, RdEnd)), Dup2 1 (Some (0, WrEnd)) STDOUT_FILENO,
               Close 1 (Some (0, WrEnd))]
            else if j = np then
              [Dup2 (2 * int j - 2) (Some (j - 1, RdEnd)) STDIN_FILENO,
               Close (2 * int j - 2) (Some (j - 1, RdEnd))]
            else
              [Close (2 * int j) (Some (j, RdEnd)),
               Dup2 (2 * int j - 2) (Some (j - 1, RdEnd)) STDIN_FILENO,
               Close (2 * int j - 2) (Some (j - 1, RdEnd)),
               Dup2 (2 * int j + 1) (Some (j, WrEnd)) STDOUT_FILENO,
               Close (2 * int j + 1) (Some (j, WrEnd))])
           @ [RunCommand (if j < length segs then segs ! j else [])]"
proof (cases "j = 0")
  case True
  then show ?thesis using child_branch_first [of np fds os segs] w np ok by simp
next
  case False
  show ?thesis
  proof (cases "j = np")
    case True
    then show ?thesis using child_branch_last [of np fds os segs] w np ok False by simp
  next
    case ne: False
    then have "0 < j" "j < np" using False j by simp_all
    from child_branch_middle [OF w this ok, of segs] show ?thesis
      using False ne by simp
  qed
qed

lemma spawn_iter_children:
  assumes "i < N"
  shows "children (snd (spawn_iter os segs np N i s)) = children s
       \<or> children (snd (spawn_iter os segs np N i s))
           = children s @ [new_child os segs np N i (fds_after N i (pipe_fds s))
                             (trace s @ fork_calls N i)]"
proof -
  have last: "(int i = int N - 1) \<longleftrightarrow> \<not> i + 1 < N"
    using assms(1) by linarith
  show ?thesis
    unfolding spawn_iter_def Let_def last
    by (auto simp: emit_def store_pipe_def spawn_child_def fds_after_def fork_calls_def
          new_child_def split_beta)
qed

lemma new_child_inv:
  assumes inv: "parent_inv os segs np i s" and i: "i \<le> np"
  shows "child_inv os segs np
           (new_child os segs np (Suc np) i (fds_after (Suc np) i (pipe_fds s))
              (trace s @ fork_calls (Suc np) i))"
proof -
  have w0: "wired np i (pipe_fds s)"
    using inv unfolding parent_inv_def by blast
  have w: "wired np (Suc i) (fds_after (Suc np) i (pipe_fds s))"
    by (rule wired_after [OF w0 i])
  have op0: "open_fds (trace s) = (if 0 < i then [(i - 1, RdEnd)] else [])"
    using inv i by (simp add: parent_inv_def)
  have opf: "open_fds (trace s @ fork_calls (Suc np) i)
               = (if 0 < i then [(i - 1, RdEnd)] else []) @
                 (if i < np then [(i, RdEnd), (i, WrEnd)] else [])"
    unfolding open_fds_append op0 fork_calls_simps(3) by simp
  show ?thesis
    unfolding child_inv_def using w opf by (auto simp: new_child_def)
qed

lemma spawned_inv:
  assumes m: "malloc_ok os" and np: "np = strvec_num_occurrences tokens ''|''"
    and ch: "ch \<in> set (spawned os tokens)"
  shows "\<exists>segs. segment tokens = Some segs \<and> length segs = Suc np
           \<and> child_inv os segs np ch \<and> cidx ch \<le> np"
proof -
  let ?s = "snd (run_pipelined_commands os tokens)"
  from run_cases [OF m run_obs(1) np] obtain segs where segs:
    "segment tokens = Some segs" "length segs = Suc np"
    and cs: "(\<exists>s2 k. parent_inv os segs np (Suc np) s2 \<and> k \<le> Suc np
          \<and> ?s = s2\<lparr>trace := trace s2 @ map Wait [0 ..< k]\<rparr>
          \<and> (return_value os tokens = 0 \<and> k = Suc np \<or> return_value os tokens = 1)
          \<and> ((\<forall>j < Suc np. sys_ok os Parent (Wait j)) \<longrightarrow> return_value os tokens = 0))
      \<or> (return_value os tokens = 1 \<and> (\<exists>j sj. j \<le> np \<and> parent_inv os segs np j sj
             \<and> spawn_iter os segs np (Suc np) j sj = (Some 1, ?s)))"
    by blast
  have old: "child_inv os segs np ch \<and> cidx ch \<le> np"
    if inv: "parent_inv os segs np j sj" and j: "j \<le> Suc np" and c: "ch \<in> set (children sj)"
    for j sj
  proof -
    have a: "map cidx (children sj) = [0 ..< j]" "\<forall>x \<in> set (children sj). child_inv os segs np x"
      using inv unfolding parent_inv_def by blast+
    have "cidx ch \<in> set (map cidx (children sj))" using c by simp
    then have "cidx ch < j" unfolding a(1) by simp
    then show ?thesis using a(2) c j by simp
  qed
  from cs consider
    (a) s2 k where "parent_inv os segs np (Suc np) s2"
      "?s = s2\<lparr>trace := trace s2 @ map Wait [0 ..< k]\<rparr>"
    | (b) j sj where "j \<le> np" "parent_inv os segs np j sj"
      "spawn_iter os segs np (Suc np) j sj = (Some 1, ?s)"
    by blast
  then show ?thesis
  proof cases
    case a
    then have "ch \<in> set (children s2)"
      using ch by (simp add: spawned_def)
    then show ?thesis using old [OF a(1)] segs by simp
  next
    case b
    note j = b(1) and inv = b(2) and it = b(3)
    have jlt: "j < Suc np" using j by simp
    let ?new = "new_child os segs np (Suc np) j (fds_after (Suc np) j (pipe_fds sj))
                  (trace sj @ fork_calls (Suc np) j)"
    from spawn_iter_children [OF jlt, of os segs np sj]
    have "children ?s = children sj \<or> children ?s = children sj @ [?new]"
      unfolding it by simp
    then have "ch \<in> set (children sj) \<or> ch = ?new"
      using ch by (auto simp: spawned_def)
    then have "child_inv os segs np ch \<and> cidx ch \<le> np"
    proof
      assume "ch \<in> set (children sj)"
      then show ?thesis using old [OF inv _ ] j by simp
    next
      assume e: "ch = ?new"
      have "cidx ?new = j" by (simp add: new_child_def)
      then show ?thesis using new_child_inv [OF inv j] j e by simp
    qed
    then show ?thesis using segs by simp
  qed
qed


section \<open>Redirections\<close>

text \<open>
  Claim C8. In a pipeline of at least two commands, the child of iteration \<open>i\<close> runs the
  \<open>i\<close>-th segment; when its calls succeed, its \<^verbatim>\<open>dup2\<close> calls are exactly these: standard
  input from slot \<open>2 * i - 2\<close>, which holds the read end of channel \<open>i - 1\<close>, unless it is
  the first command; standard output onto slot \<open>2 * i + 1\<close>, which holds the write end of
  channel \<open>i\<close>, unless it is the last command. This holds for every child that was
  spawned, also in a run in which the parent fails later.
\<close>

theorem child_redirections:
  assumes "malloc_ok os"
    and "1 \<le> strvec_num_occurrences tokens ''|''"
    and "ch \<in> set (spawned os tokens)"
    and "\<forall>c. sys_ok os (Child (cidx ch)) c"
  shows "filter is_dup2 (calls ch) =
           (if 0 < cidx ch
            then [Dup2 (2 * int (cidx ch) - 2) (Some (cidx ch - 1, RdEnd)) STDIN_FILENO]
            else []) @
           (if cidx ch < strvec_num_occurrences tokens ''|''
            then [Dup2 (2 * int (cidx ch) + 1) (Some (cidx ch, WrEnd)) STDOUT_FILENO]
            else [])
       \<and> (\<exists>segs. segment tokens = Some segs \<and> last (calls ch) = RunCommand (segs ! cidx ch))"
proof -
  define np where "np = strvec_num_occurrences tokens ''|''"
  from spawned_inv [OF assms(1) np_def assms(3)] obtain segs where
    segs: "segment tokens = Some segs" "length segs = Suc np"
    and ci: "child_inv os segs np ch" and j: "cidx ch \<le> np"
    by blast
  from ci obtain fds where fds: "wired np (Suc (cidx ch)) fds"
    "calls ch = snd (child_branch os segs fds np (Suc np) (cidx ch))"
    unfolding child_inv_def by blast
  have np1: "1 \<le> np" using assms(2) by (simp add: np_def)
  have lt: "cidx ch < length segs" using j segs(2) by simp
  note c = child_branch_calls [OF fds(1) j np1 assms(4), of segs, folded fds(2)]
  have "last (calls ch) = RunCommand (segs ! cidx ch)"
    unfolding c using lt by simp
  moreover have "filter is_dup2 (calls ch) =
           (if 0 < cidx ch
            then [Dup2 (2 * int (cidx ch) - 2) (Some (cidx ch - 1, RdEnd)) STDIN_FILENO]
            else []) @
           (if cidx ch < np
            then [Dup2 (2 * int (cidx ch) + 1) (Some (cidx ch, WrEnd)) STDOUT_FILENO]
            else [])"
    unfolding c using j np1 by auto
  ultimately show ?thesis
    using segs(1) by (simp add: np_def)
qed

theorem child_redirections_witness:
  "filter is_dup2 (calls (spawned os_ok [''a'', ''|'', ''b'', ''|'', ''c''] ! 1))
     = [Dup2 0 (Some (0, RdEnd)) STDIN_FILENO, Dup2 3 (Some (1, WrEnd)) STDOUT_FILENO]
   \<and> last (calls (spawned os_ok [''a'', ''|'', ''b'', ''|'', ''c''] ! 1)) = RunCommand [''b'']"
proof -
  let ?ch = "spawned os_ok [''a'', ''|'', ''b'', ''|'', ''c''] ! 1"
  have h1: "malloc_ok os_ok"
    by code_simp
  have h2: "1 \<le> strvec_num_occurrences [''a'', ''|'', ''b'', ''|'', ''c''] ''|''"
    by code_simp
  have len: "length (spawned os_ok [''a'', ''|'', ''b'', ''|'', ''c'']) = 3"
    by code_simp
  have h3: "?ch \<in> set (spawned os_ok [''a'', ''|'', ''b'', ''|'', ''c''])"
    by (rule nth_mem) (simp add: len)
  have h4: "\<forall>c. sys_ok os_ok (Child (cidx ?ch)) c"
    by (simp add: os_ok_def)
  have e: "cidx ?ch = 1" "strvec_num_occurrences [''a'', ''|'', ''b'', ''|'', ''c''] ''|'' = 2"
    "segment [''a'', ''|'', ''b'', ''|'', ''c''] = Some [[''a''], [''b''], [''c'']]"
    by code_simp+
  show ?thesis
    using child_redirections [OF h1 h2 h3 h4] unfolding e by simp
qed

section \<open>Every endpoint is closed once\<close>

lemma waits_keep_fds: "foldl fd_step fs (map Wait xs) = fs"
  by (induction xs arbitrary: fs) simp_all

lemma waits_close_nothing: "closes_of e (map Wait xs) = 0"
  by (induction xs) (simp_all add: closes_of_def)

lemma child_closes_inherited:
  assumes ci: "child_inv os segs np ch" and j: "cidx ch \<le> np" and np: "1 \<le> np"
    and ok: "\<forall>c. sys_ok os (Child (cidx ch)) c"
  shows "closes_of e (calls ch) = (if e \<in> set (open_fds (inherited ch)) then 1 else 0)"
    and "open_fds (inherited ch @ calls ch) = []"
proof -
  from ci obtain fds where fds: "wired np (Suc (cidx ch)) fds"
    "calls ch = snd (child_branch os segs fds np (Suc np) (cidx ch))"
    unfolding child_inv_def by blast
  have inh: "open_fds (inherited ch)
         = (if 0 < cidx ch then [(cidx ch - 1, RdEnd)] else []) @
           (if cidx ch < np then [(cidx ch, RdEnd), (cidx ch, WrEnd)] else [])"
    using ci unfolding child_inv_def by blast
  note c = child_branch_calls [OF fds(1) j np ok, of segs, folded fds(2)]
  show "closes_of e (calls ch) = (if e \<in> set (open_fds (inherited ch)) then 1 else 0)"
    unfolding c inh using j np by (auto simp: closes_of_def)
  show "open_fds (inherited ch @ calls ch) = []"
    unfolding open_fds_append inh unfolding c using j np by auto
qed

text \<open>
  Claim C1. In a pipeline of at least two commands in which no call fails, the function
  returns 0; the parent closes each of the \<open>2 * (N - 1)\<close> endpoints exactly once and holds
  none open at the end; one child per command is spawned, and each child closes exactly
  once each endpoint it inherited open and nothing else, so that it too holds none when
  its command runs.
\<close>

theorem every_endpoint_closed_once:
  assumes "malloc_ok os" and "\<forall>p c. sys_ok os p c"
    and "1 \<le> strvec_num_occurrences tokens ''|''"
  shows "return_value os tokens = 0
       \<and> (\<forall>c < strvec_num_occurrences tokens ''|''.
             closes_of (c, RdEnd) (parent_calls os tokens) = 1
           \<and> closes_of (c, WrEnd) (parent_calls os tokens) = 1)
       \<and> open_fds (parent_calls os tokens) = []
       \<and> map cidx (spawned os tokens) = [0 ..< strvec_num_occurrences tokens ''|'' + 1]
       \<and> (\<forall>ch \<in> set (spawned os tokens). \<forall>e.
             closes_of e (calls ch) = (if e \<in> set (open_fds (inherited ch)) then 1 else 0))
       \<and> (\<forall>ch \<in> set (spawned os tokens). open_fds (inherited ch @ calls ch) = [])"
proof -
  define np where "np = strvec_num_occurrences tokens ''|''"
  have np1: "1 \<le> np" using assms(3) by (simp add: np_def)
  have pok: "\<forall>c. sys_ok os Parent c" using assms(2) by simp
  let ?s = "snd (run_pipelined_commands os tokens)"
  from run_cases [OF assms(1) run_obs(1) np_def] obtain segs where
    cs: "(\<exists>s2 k. parent_inv os segs np (Suc np) s2 \<and> k \<le> Suc np
          \<and> ?s = s2\<lparr>trace := trace s2 @ map Wait [0 ..< k]\<rparr>
          \<and> (return_value os tokens = 0 \<and> k = Suc np \<or> return_value os tokens = 1)
          \<and> ((\<forall>j < Suc np. sys_ok os Parent (Wait j)) \<longrightarrow> return_value os tokens = 0))
      \<or> (return_value os tokens = 1 \<and> (\<exists>j sj. j \<le> np \<and> parent_inv os segs np j sj
             \<and> spawn_iter os segs np (Suc np) j sj = (Some 1, ?s)))"
    by blast
  have not_b: False if b: "j \<le> np" "spawn_iter os segs np (Suc np) j sj = (Some 1, ?s)" for j sj
  proof -
    have "j < Suc np" using b(1) by simp
    from spawn_iter_all_ok [OF this pok, of segs np sj] show False
      using b(2) by simp
  qed
  have r: "return_value os tokens = 0"
    using cs not_b pok by blast
  from run_success [OF assms(1) np_def r] obtain segs' s2 where
    a: "parent_inv os segs' np (Suc np) s2"
       "parent_calls os tokens = trace s2 @ map Wait [0 ..< Suc np]"
       "spawned os tokens = children s2"
    by blast
  have inv: "open_fds (trace s2) = (if 0 < Suc np \<and> Suc np \<le> np then [(Suc np - 1, RdEnd)] else [])"
    "\<forall>c. closes_of (c, WrEnd) (trace s2) = (if c < Suc np \<and> c < np then 1 else 0)"
    "\<forall>c. closes_of (c, RdEnd) (trace s2) = (if c + 1 < Suc np then 1 else 0)"
    "map cidx (children s2) = [0 ..< Suc np]"
    using a(1) unfolding parent_inv_def by blast+
  have p1: "\<forall>c < np. closes_of (c, RdEnd) (parent_calls os tokens) = 1
                    \<and> closes_of (c, WrEnd) (parent_calls os tokens) = 1"
    unfolding a(2) closes_of_append waits_close_nothing using inv(2,3) by simp
  have p2: "open_fds (parent_calls os tokens) = []"
    unfolding a(2) open_fds_append waits_keep_fds using inv(1) by simp
  have p3: "map cidx (spawned os tokens) = [0 ..< np + 1]"
    unfolding a(3) using inv(4) by simp
  have p4: "closes_of e (calls ch) = (if e \<in> set (open_fds (inherited ch)) then 1 else 0)"
    and p5: "open_fds (inherited ch @ calls ch) = []"
    if ch: "ch \<in> set (spawned os tokens)" for ch e
  proof -
    from spawned_inv [OF assms(1) np_def ch] obtain sg where
      ci: "child_inv os sg np ch" "cidx ch \<le> np"
      by blast
    have ok: "\<forall>c. sys_ok os (Child (cidx ch)) c" using assms(2) by simp
    show "closes_of e (calls ch) = (if e \<in> set (open_fds (inherited ch)) then 1 else 0)"
      by (rule child_closes_inherited(1) [OF ci np1 ok])
    show "open_fds (inherited ch @ calls ch) = []"
      by (rule child_closes_inherited(2) [OF ci np1 ok])
  qed
  show ?thesis
    using r p1 p2 p3 p4 p5 unfolding np_def by blast
qed

theorem every_endpoint_closed_once_witness:
  "return_value os_ok [''a'', ''|'', ''b'', ''|'', ''c''] = 0
   \<and> closes_of (1, RdEnd) (parent_calls os_ok [''a'', ''|'', ''b'', ''|'', ''c'']) = 1
   \<and> closes_of (1, WrEnd) (parent_calls os_ok [''a'', ''|'', ''b'', ''|'', ''c'']) = 1
   \<and> open_fds (parent_calls os_ok [''a'', ''|'', ''b'', ''|'', ''c'']) = []
   \<and> map cidx (spawned os_ok [''a'', ''|'', ''b'', ''|'', ''c'']) = [0, 1, 2]"
proof -
  have h1: "malloc_ok os_ok"
    by code_simp
  have h2: "\<forall>p c. sys_ok os_ok p c"
    by (simp add: os_ok_def)
  have h3: "1 \<le> strvec_num_occurrences [''a'', ''|'', ''b'', ''|'', ''c''] ''|''"
    by code_simp
  have e: "strvec_num_occurrences [''a'', ''|'', ''b'', ''|'', ''c''] ''|'' = 2"
    by code_simp
  have u: "[0 ..< 2 + 1] = [0, 1, 2::nat]"
    by code_simp
  show ?thesis
    using every_endpoint_closed_once [OF h1 h2 h3] unfolding e u by simp
qed

section \<open>What a failing child does\<close>

text \<open>
  \<open>run_piped_command\<close> returns 0 or 1, never \<open>-1\<close>: whenever it returns at all, the child
  goes on to \<^verbatim>\<open>exit(0)\<close>.
\<close>

lemma run_piped_command_returns_0_or_1:
  "fst (run_piped_command os i tokens pipes n_pipes in_idx out_idx tr) = Ret r \<Longrightarrow> r = 0 \<or> r = 1"
  unfolding run_piped_command_def Let_def
  by (auto split: if_splits run_result.splits)

lemma child_status_after_return:
  assumes "fst (run_piped_command os i tokens pipes n_pipes in_idx out_idx tr) = Ret r"
  shows "fst (child_exit (run_piped_command os i tokens pipes n_pipes in_idx out_idx tr)) = 0"
proof -
  obtain tr' where e: "run_piped_command os i tokens pipes n_pipes in_idx out_idx tr = (Ret r, tr')"
    using assms by (cases "run_piped_command os i tokens pipes n_pipes in_idx out_idx tr") simp
  have "r = 0 \<or> r = 1"
    using run_piped_command_returns_0_or_1 [OF assms] .
  then show ?thesis unfolding e by auto
qed

text \<open>
  Claim C3 at two failing inputs. \<open>run_piped_command\<close> returns 1 on an error and its
  caller compares the result with \<open>-1\<close>, so the \<^verbatim>\<open>exit(1)\<close> is never taken and the child
  reaches \<^verbatim>\<open>exit(0)\<close>. First, \<^verbatim>\<open>run_command\<close> returns 1 in the first child of two; second,
  the \<^verbatim>\<open>dup2\<close> onto standard input fails in the second child, which then never runs its
  command. Both children end with status 0.
\<close>

theorem failing_child_exits_with_status_zero:
  "map status (spawned (runner_returns 0 1) [''nosuch'', ''|'', ''true'']) = [0, 0]
   \<and> map calls (spawned (fails_at (Child 1) (Dup2 0 (Some (0, RdEnd)) STDIN_FILENO))
                   [''nosuch'', ''|'', ''true''])
       = [[Close 0 (Some (0, RdEnd)), Dup2 1 (Some (0, WrEnd)) STDOUT_FILENO,
           Close 1 (Some (0, WrEnd)), RunCommand [''nosuch'']],
          [Dup2 0 (Some (0, RdEnd)) STDIN_FILENO]]
   \<and> map status (spawned (fails_at (Child 1) (Dup2 0 (Some (0, RdEnd)) STDIN_FILENO))
                    [''nosuch'', ''|'', ''true'']) = [0, 0]"
  by code_simp

section \<open>A single command\<close>

text \<open>
  For every token sequence without a delimiter in which no call fails: the calls of the
  parent and of the only child.
\<close>

lemma single_command_run:
  assumes "''|'' \<notin> set tokens" and "malloc_ok os" and "\<forall>p c. sys_ok os p c"
  shows "parent_calls os tokens = [Fork 0, Wait 0]"
    and "map calls (spawned os tokens)
           = [[Close 0 None, Dup2 1 None STDOUT_FILENO, Close 1 None, RunCommand tokens]]"
proof -
  have np: "strvec_num_occurrences tokens ''|'' = 0"
    using assms(1) by (simp add: strvec_num_occurrences_def)
  from segment_correct [of tokens] obtain segs where
    s: "segment tokens = Some segs" "length segs = count_list tokens ''|'' + 1"
       "join_segments ''|'' segs = tokens"
    by blast
  have "length segs = 1" using s(2) assms(1) by simp
  then obtain seg where "segs = [seg]"
    by (cases segs) auto
  then have segs: "segment tokens = Some [tokens]"
    using s(1,3) by simp
  let ?s1 = "\<lparr>pipe_fds = [], trace = [], children = []\<rparr>"
  let ?ch = "\<lparr>cidx = 0, inherited = [Fork 0],
              calls = snd (child_branch os [tokens] [] 0 (Suc 0) 0),
              status = fst (child_branch os [tokens] [] 0 (Suc 0) 0)\<rparr>"
  have it: "spawn_iter os [tokens] 0 (Suc 0) 0 ?s1
              = (None, \<lparr>pipe_fds = [], trace = [Fork 0], children = [?ch]\<rparr>)"
    unfolding spawn_iter_def Let_def using assms(3)
    by (simp add: emit_def spawn_child_def split_beta)
  have lp: "spawn_loop os [tokens] 0 (Suc 0) 0 ?s1
              = (None, \<lparr>pipe_fds = [], trace = [Fork 0], children = [?ch]\<rparr>)"
    by (subst spawn_loop.simps, simp add: it, subst spawn_loop.simps, simp)
  have wl: "wait_loop os (Suc 0) 0 \<lparr>pipe_fds = [], trace = [Fork 0], children = [?ch]\<rparr>
              = (None, \<lparr>pipe_fds = [], trace = [Fork 0, Wait 0], children = [?ch]\<rparr>)"
    using assms(3)
    by (subst wait_loop.simps, simp add: emit_def, subst wait_loop.simps, simp)
  have run: "run_pipelined_commands os tokens
               = (0, \<lparr>pipe_fds = [], trace = [Fork 0, Wait 0], children = [?ch]\<rparr>)"
    unfolding run_pipelined_commands_def Let_def np using assms(2) segs lp wl by simp
  have cb: "snd (child_branch os [tokens] [] 0 (Suc 0) 0)
              = [Close 0 None, Dup2 1 None STDOUT_FILENO, Close 1 None, RunCommand tokens]"
    unfolding child_branch_def run_piped_command_def Let_def using assms(3)
    by (simp add: slot_def split: run_result.splits)
  show "parent_calls os tokens = [Fork 0, Wait 0]"
    by (simp add: parent_calls_def run)
  show "map calls (spawned os tokens)
           = [[Close 0 None, Dup2 1 None STDOUT_FILENO, Close 1 None, RunCommand tokens]]"
    by (simp add: spawned_def run cb)
qed

text \<open>
  Claim C6 at the failing input \<^verbatim>\<open>ls\<close>. The parent allocates no channel: its calls are one
  \<^verbatim>\<open>fork\<close> and one \<^verbatim>\<open>wait\<close>. The child takes the branch of the first command, which is
  tested before the branch of the last one: it closes slot 0 and duplicates slot 1 onto
  standard output, both outside the empty array. When the first of these calls fails,
  the child exits with status 1 and the command never runs.
\<close>

theorem single_command_child_uses_slots_outside_the_array:
  "parent_calls os_ok [''ls''] = [Fork 0, Wait 0]
   \<and> pipe_fds (snd (run_pipelined_commands os_ok [''ls''])) = []
   \<and> map calls (spawned os_ok [''ls''])
       = [[Close 0 None, Dup2 1 None STDOUT_FILENO, Close 1 None, RunCommand [''ls'']]]
   \<and> map calls (spawned (fails_at (Child 0) (Close 0 None)) [''ls'']) = [[Close 0 None]]
   \<and> map status (spawned (fails_at (Child 0) (Close 0 None)) [''ls'']) = [1]"
  by code_simp


end
